theory Spec2Isabelle
  imports Main "HOL-Library.Word"
begin

section \<open>Packets\<close>

text \<open>
  A TLV element of ndn-cxx (\<open>Block\<close>): its type number, its value bytes, and the
  memory that follows the value in the buffer the element points into (the rest of the
  packet and whatever lies behind it), which a read past the end of the value reaches.
  \<open>value_size()\<close> is the number of value bytes; \<open>value()\<close> points at the first of
  them, and \<open>value_at b i\<close> is the byte \<open>i\<close> places after that pointer.
  \<open>tlv::SignatureValue\<close> is the constant 23 of the NDN packet format.
\<close>

type_synonym bytes = "8 word list"

type_synonym memory = "nat \<Rightarrow> 8 word"

datatype block = Block (tlv_type: nat) (tlv_value: bytes) (tlv_after: memory)

definition value_size :: "block \<Rightarrow> nat" where
  "value_size b = length (tlv_value b)"

definition value_at :: "block \<Rightarrow> memory" where
  "value_at b i =
     (if i < length (tlv_value b) then tlv_value b ! i else tlv_after b (i - length (tlv_value b)))"

definition SignatureValue :: nat where
  "SignatureValue = 23"

text \<open>
  What can leave a handler other than by returning: the dereference of an end iterator,
  an exception of the TLV library (\<open>Block::parse\<close> on a payload that is not a TLV
  sequence, \<open>Block::get\<close> when no sub-element has the type), an index past the end of
  the slot vector, a failed \<open>BOOST_ASSERT\<close>.
\<close>

datatype fault = EndIteratorDeref | TlvError | IndexOutOfRange | AssertFailed

text \<open>
  A Data packet as \<open>handleData\<close> reads it: the segment number of its name (the name
  equals the Interest's), the sub-elements of its content (\<open>None\<close> when \<open>parse()\<close>
  throws), the packet's own SignatureValue element (\<open>getSignatureValue()\<close>), and the
  FinalBlockId when it carries one.
\<close>

record data =
  segment :: nat
  content :: "block list option"
  signatureValue :: block
  finalBlock :: "nat option"

text \<open>\<open>Block::get(type)\<close>: the first sub-element of the type, or the library's exception.\<close>

fun get :: "block list \<Rightarrow> nat \<Rightarrow> fault + block" where
  "get [] t = Inl TlvError"
| "get (b # bs) t = (if tlv_type b = t then Inr b else get bs t)"

text \<open>
  \<open>memcmp(p, q, n) != 0\<close>: the \<open>n\<close> bytes from \<open>p\<close> differ somewhere from the \<open>n\<close>
  bytes from \<open>q\<close>. The comparison does not stop at the end of a value: when \<open>n\<close> is
  greater than the size of a value, it goes on through the bytes that follow it.
\<close>

definition memcmp :: "memory \<Rightarrow> memory \<Rightarrow> nat \<Rightarrow> bool" where
  "memcmp p q n = list_ex (\<lambda>i. p i \<noteq> q i) [0 ..< n]"

text \<open>
  The arithmetic of \<open>int\<close>: a result is brought back into the 32-bit signed range,
  as the compiled code does. \<open>int segment_no = ...toSegment()\<close> narrows the 64-bit
  segment number so, and the keys \<open>segment_no + 1\<close> and \<open>segment_no - 1\<close> wrap so
  at the ends of the range.
\<close>

definition to_int32 :: "int \<Rightarrow> int" where
  "to_int32 x = (x + 2147483648) mod 4294967296 - 2147483648"

definition toInt :: "nat \<Rightarrow> int" where
  "toInt n = to_int32 (int n)"

section \<open>The two tables\<close>

text \<open>
  Modelled from the spec: the types of \<open>hash_map\<close> and \<open>hash_data\<close> (they are declared
  in pipeline-interests-fixed.hpp, which is not among the sources). The commitment
  table and the pending-verification cache are keyed by segment number, one entry per
  key. They are association lists here: \<open>insert\<close> leaves an existing key alone,
  \<open>erase\<close> removes the key, \<open>size() != 0\<close> is \<open>\<noteq> []\<close>.

  The source reads \<open>find(k)->second\<close> without comparing the iterator with \<open>end()\<close>.
  For an absent key that is undefined behaviour. What the read yields there is a
  parameter of the model: \<open>MissFaults\<close> makes it the fault \<open>EndIteratorDeref\<close>,
  \<open>MissIsNull\<close> makes it the null pointer, the value the tests \<open>== 0\<close> and \<open>!= 0\<close>
  of the source expect. A stored \<open>shared_ptr\<close> comes from \<open>make_shared\<close> and is
  never null, so a found key yields \<open>Some\<close>.
\<close>

datatype miss = MissFaults | MissIsNull

definition find_second :: "miss \<Rightarrow> (int \<times> 'a) list \<Rightarrow> int \<Rightarrow> fault + 'a option" where
  "find_second ms m k =
     (case map_of m k of
        Some v \<Rightarrow> Inr (Some v)
      | None \<Rightarrow> (case ms of MissFaults \<Rightarrow> Inl EndIteratorDeref | MissIsNull \<Rightarrow> Inr None))"

definition insert_pair :: "int \<Rightarrow> 'a \<Rightarrow> (int \<times> 'a) list \<Rightarrow> (int \<times> 'a) list" where
  "insert_pair k v m = (if map_of m k = None then m @ [(k, v)] else m)"

definition erase :: "int \<Rightarrow> (int \<times> 'a) list \<Rightarrow> (int \<times> 'a) list" where
  "erase k m = filter (\<lambda>p. fst p \<noteq> k) m"

section \<open>Fetch tasks\<close>

text \<open>
  Modelled from the spec: \<open>DataFetcher\<close> (data-fetcher.hpp is not among the sources).
  A fetch task is one outstanding request for one segment number; it resolves at most
  once, with a response or with a permanent failure, and it can be cancelled. It is
  running until it has resolved or has been cancelled.
\<close>

record fetcher =
  m_isStopped :: bool
  m_hasError :: bool

definition isRunning :: "fetcher \<Rightarrow> bool" where
  "isRunning f = (\<not> m_isStopped f \<and> \<not> m_hasError f)"

definition hasError :: "fetcher \<Rightarrow> bool" where
  "hasError f = m_hasError f"

definition fetcher_cancel :: "fetcher \<Rightarrow> fetcher" where
  "fetcher_cancel f = (if isRunning f then f\<lparr>m_isStopped := True\<rparr> else f)"

definition fetch :: fetcher where
  "fetch = \<lparr>m_isStopped = False, m_hasError = False\<rparr>"

section \<open>The pipeline\<close>

text \<open>
  The members of \<open>PipelineInterestsFixed\<close> and of its base class that the handlers
  read and write, and three logs of what the pipeline does to the outside: the Interests
  it sends (\<open>requested\<close>), the segments it hands to the caller (\<open>delivered\<close>, the calls
  of the data callback) and the failure callbacks (\<open>failures\<close>). Segment numbers are
  \<open>uint64_t\<close> in the source; the counter goes up by one per request and cannot reach
  \<open>2^64\<close>, so they are naturals here.
\<close>

type_synonym slot = "fetcher option \<times> nat"

record pipeline =
  m_segmentFetchers :: "slot list"
  m_hasFailure :: bool
  m_hasFinalBlockId :: bool
  m_lastSegmentNo :: nat
  m_nextSegmentNo :: nat
  m_isStopping :: bool
  hash_map :: "(int \<times> block) list"
  hash_data :: "(int \<times> data) list"
  requested :: "nat list"
  delivered :: "data list"
  failures :: "string list"

text \<open>
  Modelled from the spec: the initial values of the base class members and of
  \<open>m_hasFailure\<close> (set in the headers, which are not among the sources): nothing
  latched, final segment number unknown, next segment number 0, not stopping. The
  constructor in the source resizes the slot vector to \<open>maxPipelineSize\<close> empty slots.
\<close>

definition PipelineInterestsFixed :: "nat \<Rightarrow> pipeline" where
  "PipelineInterestsFixed maxPipelineSize =
     \<lparr>m_segmentFetchers = replicate maxPipelineSize (None, 0),
      m_hasFailure = False, m_hasFinalBlockId = False, m_lastSegmentNo = 0,
      m_nextSegmentNo = 0, m_isStopping = False,
      hash_map = [], hash_data = [], requested = [], delivered = [], failures = []\<rparr>"

subsection \<open>doCancel and the base class\<close>

fun cancel_all :: "slot list \<Rightarrow> slot list" where
  "cancel_all [] = []"
| "cancel_all ((None, n) # fs) = (None, n) # cancel_all fs"
| "cancel_all ((Some f, n) # fs) = (Some (fetcher_cancel f), n) # cancel_all fs"

text \<open>\<open>doCancel\<close>: the loop cancels every fetcher, then the vector is cleared.\<close>

definition cancel_fetchers :: "pipeline \<Rightarrow> pipeline" where
  "cancel_fetchers s = s\<lparr>m_segmentFetchers := cancel_all (m_segmentFetchers s)\<rparr>"

definition clear :: "pipeline \<Rightarrow> pipeline" where
  "clear s = s\<lparr>m_segmentFetchers := []\<rparr>"

definition doCancel :: "pipeline \<Rightarrow> pipeline" where
  "doCancel s = clear (cancel_fetchers s)"

text \<open>
  Modelled from the spec: \<open>PipelineInterests::isStopping\<close>, \<open>cancel\<close>, \<open>onData\<close>,
  \<open>onFailure\<close>, \<open>getNextSegmentNo\<close> and \<open>allSegmentsReceived\<close> (the base class is not
  among the sources). \<open>cancel()\<close> is idempotent, stops every fetch task and clears the
  slots; a fatal condition terminates the pipeline once, with one error event, and no
  slot is active afterwards; a delivery hands the segment to the caller; the next
  segment number is the next unrequested one; all segments are received when every
  segment up to the final number has been delivered.
\<close>

definition isStopping :: "pipeline \<Rightarrow> bool" where
  "isStopping s = m_isStopping s"

definition cancel :: "pipeline \<Rightarrow> pipeline" where
  "cancel s = (if m_isStopping s then s else doCancel (s\<lparr>m_isStopping := True\<rparr>))"

definition onData :: "data \<Rightarrow> pipeline \<Rightarrow> pipeline" where
  "onData d s = s\<lparr>delivered := delivered s @ [d]\<rparr>"

definition onFailure :: "string \<Rightarrow> pipeline \<Rightarrow> pipeline" where
  "onFailure reason s =
     (if m_isStopping s then s else (cancel s)\<lparr>failures := failures s @ [reason]\<rparr>)"

definition getNextSegmentNo :: "pipeline \<Rightarrow> nat \<times> pipeline" where
  "getNextSegmentNo s = (m_nextSegmentNo s, s\<lparr>m_nextSegmentNo := m_nextSegmentNo s + 1\<rparr>)"

definition allSegmentsReceived :: "pipeline \<Rightarrow> bool" where
  "allSegmentsReceived s =
     (m_hasFinalBlockId s \<and>
      list_all (\<lambda>n. n \<in> set (map segment (delivered s))) [0 ..< Suc (m_lastSegmentNo s)])"

subsection \<open>fetchNextSegment and doRun\<close>

definition fetchNextSegment :: "nat \<Rightarrow> pipeline \<Rightarrow> fault + bool \<times> pipeline" where
  "fetchNextSegment pipeNo s =
     (if isStopping s then Inr (False, s)
      else if m_hasFailure s then
        Inr (False, onFailure ''Fetching terminated but no final segment number has been found'' s)
      else
        (case getNextSegmentNo s of (nextSegmentNo, s1) \<Rightarrow>
           if m_hasFinalBlockId s1 \<and> nextSegmentNo > m_lastSegmentNo s1 then Inr (False, s1)
           else if \<not> pipeNo < length (m_segmentFetchers s1) then Inl IndexOutOfRange
           else
             (case fst (m_segmentFetchers s1 ! pipeNo) of
                Some f \<Rightarrow>
                  if isRunning f then Inl AssertFailed
                  else Inr (True, s1\<lparr>requested := requested s1 @ [nextSegmentNo],
                                    m_segmentFetchers :=
                                      (m_segmentFetchers s1)[pipeNo := (Some fetch, nextSegmentNo)]\<rparr>)
              | None \<Rightarrow>
                  Inr (True, s1\<lparr>requested := requested s1 @ [nextSegmentNo],
                                m_segmentFetchers :=
                                  (m_segmentFetchers s1)[pipeNo := (Some fetch, nextSegmentNo)]\<rparr>))))"

text \<open>
  \<open>doRun\<close>: the loop over \<open>nRequestedSegments\<close>, written with the number of rounds
  left; it stops at the first \<open>fetchNextSegment\<close> that returns false.
\<close>

fun doRun_loop :: "nat \<Rightarrow> nat \<Rightarrow> pipeline \<Rightarrow> fault + pipeline" where
  "doRun_loop nRequestedSegments 0 s = Inr s"
| "doRun_loop nRequestedSegments (Suc left) s =
     (case fetchNextSegment nRequestedSegments s of
        Inl e \<Rightarrow> Inl e
      | Inr (ok, s1) \<Rightarrow> if ok then doRun_loop (Suc nRequestedSegments) left s1 else Inr s1)"

definition doRun :: "nat \<Rightarrow> pipeline \<Rightarrow> fault + pipeline" where
  "doRun maxPipelineSize s = doRun_loop 0 maxPipelineSize s"

subsection \<open>handleData\<close>

text \<open>
  Lines 142 to 148: every sub-element of type SignatureValue is inserted under the
  segment's key, in order, so the first one stays.
\<close>

fun record_commitments :: "int \<Rightarrow> block list \<Rightarrow> (int \<times> block) list \<Rightarrow> (int \<times> block) list" where
  "record_commitments segment_no [] m = m"
| "record_commitments segment_no (b # bs) m =
     record_commitments segment_no bs
       (if tlv_type b = SignatureValue then insert_pair segment_no b m else m)"

text \<open>
  The comparison of line 135, for a cached successor: the value this response's content
  embeds against the value the cached response's content embeds, over as many bytes as
  this response's signature has, whatever the sizes of the two values.
\<close>

definition pending_compare :: "data \<Rightarrow> block list \<Rightarrow> data \<Rightarrow> fault + bool" where
  "pending_compare d elements cData =
     (case content cData of
        None \<Rightarrow> Inl TlvError
      | Some m_content \<Rightarrow>
          (case get m_content SignatureValue of
             Inl e \<Rightarrow> Inl e
           | Inr hash_block \<Rightarrow>
               (case get elements SignatureValue of
                  Inl e \<Rightarrow> Inl e
                | Inr own \<Rightarrow>
                    Inr (memcmp (value_at own) (value_at hash_block)
                           (value_size (signatureValue d))))))"

text \<open>
  The comparison of line 156, for a response whose predecessor has left a commitment:
  the packet's signature value against the recorded block, over the signature's length,
  whatever the size of the recorded value.
\<close>

definition direct_compare :: "data \<Rightarrow> block \<Rightarrow> bool" where
  "direct_compare d hash_block =
     memcmp (value_at (signatureValue d)) (value_at hash_block) (value_size (signatureValue d))"

text \<open>A handler stage either returns from the handler or falls through to the next stage.\<close>

datatype flow = Returns | Continues

text \<open>Lines 130 to 149.\<close>

definition resolve_pending ::
  "miss \<Rightarrow> int \<Rightarrow> data \<Rightarrow> block list \<Rightarrow> pipeline \<Rightarrow> fault + flow \<times> pipeline" where
  "resolve_pending ms segment_no d elements s =
     (case (if hash_data s = [] then Inr None
            else find_second ms (hash_data s) (to_int32 (segment_no + 1))) of
        Inl e \<Rightarrow> Inl e
      | Inr (Some cData) \<Rightarrow>
          (case pending_compare d elements cData of
             Inl e \<Rightarrow> Inl e
           | Inr differ \<Rightarrow>
               if differ then Inr (Returns, onFailure ''Failure hash key error'' s)
               else Inr (Continues,
                         onData cData
                           (s\<lparr>hash_data := erase (to_int32 (segment_no + 1)) (hash_data s)\<rparr>)))
      | Inr None \<Rightarrow>
          Inr (Continues, s\<lparr>hash_map := record_commitments segment_no elements (hash_map s)\<rparr>))"

text \<open>Lines 151 to 164.\<close>

definition verify_segment ::
  "miss \<Rightarrow> int \<Rightarrow> data \<Rightarrow> pipeline \<Rightarrow> fault + flow \<times> pipeline" where
  "verify_segment ms segment_no d s =
     (if segment_no \<noteq> 0 then
        (case find_second ms (hash_map s) (to_int32 (segment_no - 1)) of
           Inl e \<Rightarrow> Inl e
         | Inr None \<Rightarrow>
             Inr (Continues, s\<lparr>hash_data := insert_pair segment_no d (hash_data s)\<rparr>)
         | Inr (Some hash_block) \<Rightarrow>
             if direct_compare d hash_block
             then Inr (Returns, onFailure ''Failure hash key error'' s)
             else Inr (Continues,
                       onData d
                         (s\<lparr>hash_data := erase (to_int32 (segment_no - 1)) (hash_data s)\<rparr>)))
      else Inr (Continues, onData d s))"

text \<open>
  The loop of lines 171 to 183 over the slots: a fetcher beyond the last segment is
  cancelled; at the first fetcher within the content that has an error the loop is left
  and its segment number reported, the slots after it untouched.
\<close>

fun cancel_beyond :: "nat \<Rightarrow> slot list \<Rightarrow> slot list \<times> nat option" where
  "cancel_beyond lastSegmentNo [] = ([], None)"
| "cancel_beyond lastSegmentNo ((None, n) # fs) =
     (case cancel_beyond lastSegmentNo fs of (fs', r) \<Rightarrow> ((None, n) # fs', r))"
| "cancel_beyond lastSegmentNo ((Some f, n) # fs) =
     (if n > lastSegmentNo then
        (case cancel_beyond lastSegmentNo fs of (fs', r) \<Rightarrow> ((Some (fetcher_cancel f), n) # fs', r))
      else if hasError f then ((Some f, n) # fs, Some n)
      else (case cancel_beyond lastSegmentNo fs of (fs', r) \<Rightarrow> ((Some f, n) # fs', r)))"

text \<open>\<open>to_string\<close> of a segment number, in decimal.\<close>

fun to_string_fuel :: "nat \<Rightarrow> nat \<Rightarrow> string" where
  "to_string_fuel 0 n = []"
| "to_string_fuel (Suc k) n =
     (if n < 10 then [char_of (48 + n)]
      else to_string_fuel k (n div 10) @ [char_of (48 + n mod 10)])"

definition to_string :: "nat \<Rightarrow> string" where
  "to_string n = to_string_fuel (Suc n) n"

text \<open>Lines 167 to 184.\<close>

definition discover_final :: "data \<Rightarrow> pipeline \<Rightarrow> flow \<times> pipeline" where
  "discover_final d s =
     (case finalBlock d of
        Some k \<Rightarrow>
          if \<not> m_hasFinalBlockId s then
            (let s1 = s\<lparr>m_lastSegmentNo := k, m_hasFinalBlockId := True\<rparr> in
             case cancel_beyond (m_lastSegmentNo s1) (m_segmentFetchers s1) of
               (fs, Some n) \<Rightarrow>
                 (Returns, onFailure (''Failure retrieving segment #'' @ to_string n)
                             (s1\<lparr>m_segmentFetchers := fs\<rparr>))
             | (fs, None) \<Rightarrow> (Continues, s1\<lparr>m_segmentFetchers := fs\<rparr>))
          else (Continues, s)
      | None \<Rightarrow> (Continues, s))"

text \<open>Lines 186 to 193; \<open>printSummary\<close> only prints.\<close>

definition finish_or_refill :: "nat \<Rightarrow> pipeline \<Rightarrow> fault + pipeline" where
  "finish_or_refill pipeNo s =
     (if allSegmentsReceived s then Inr s
      else (case fetchNextSegment pipeNo s of Inl e \<Rightarrow> Inl e | Inr (ok, s1) \<Rightarrow> Inr s1))"

text \<open>
  \<open>handleData(interest, data, pipeNo)\<close>; \<open>seg\<close> is the segment number of the
  Interest's name, and the \<open>BOOST_ASSERT\<close> of line 121 wants the Data's name to be the
  Interest's.
\<close>

definition handleData :: "miss \<Rightarrow> nat \<Rightarrow> data \<Rightarrow> nat \<Rightarrow> pipeline \<Rightarrow> fault + pipeline" where
  "handleData ms seg d pipeNo s =
     (if isStopping s then Inr s
      else if segment d \<noteq> seg then Inl AssertFailed
      else
        (let segment_no = toInt seg in
         case content d of
           None \<Rightarrow> Inl TlvError
         | Some elements \<Rightarrow>
             (case resolve_pending ms segment_no d elements s of
                Inl e \<Rightarrow> Inl e
              | Inr (Returns, s1) \<Rightarrow> Inr s1
              | Inr (Continues, s1) \<Rightarrow>
                  (case verify_segment ms segment_no d s1 of
                     Inl e \<Rightarrow> Inl e
                   | Inr (Returns, s2) \<Rightarrow> Inr s2
                   | Inr (Continues, s2) \<Rightarrow>
                       (case discover_final d s2 of
                          (Returns, s3) \<Rightarrow> Inr s3
                        | (Continues, s3) \<Rightarrow> finish_or_refill pipeNo s3)))))"

subsection \<open>handleFail\<close>

text \<open>
  The loop of lines 207 to 218: a fetcher after the failed segment is cancelled; a
  running fetcher at or before it keeps \<open>areAllFetchersStopped\<close> from being true.
\<close>

fun cancel_following :: "nat \<Rightarrow> slot list \<Rightarrow> slot list \<times> bool" where
  "cancel_following failed [] = ([], True)"
| "cancel_following failed ((None, n) # fs) =
     (case cancel_following failed fs of (fs', stopped) \<Rightarrow> ((None, n) # fs', stopped))"
| "cancel_following failed ((Some f, n) # fs) =
     (case cancel_following failed fs of (fs', stopped) \<Rightarrow>
        if n > failed then ((Some (fetcher_cancel f), n) # fs', stopped)
        else if isRunning f then ((Some f, n) # fs', False)
        else ((Some f, n) # fs', stopped))"

definition handleFail :: "string \<Rightarrow> nat \<Rightarrow> pipeline \<Rightarrow> fault + pipeline" where
  "handleFail reason pipeNo s =
     (if isStopping s then Inr s
      else if m_hasFinalBlockId s then
        (if \<not> pipeNo < length (m_segmentFetchers s) then Inl IndexOutOfRange
         else if snd (m_segmentFetchers s ! pipeNo) \<le> m_lastSegmentNo s then Inr (onFailure reason s)
         else Inr s)
      else if list_all (\<lambda>sl. fst sl = None) (m_segmentFetchers s) then
        Inr (onFailure ''Fetching terminated but no final segment number has been found'' s)
      else if \<not> pipeNo < length (m_segmentFetchers s) then Inl IndexOutOfRange
      else
        (case cancel_following (snd (m_segmentFetchers s ! pipeNo)) (m_segmentFetchers s) of
           (fs, areAllFetchersStopped) \<Rightarrow>
             if areAllFetchersStopped then
               Inr (onFailure ''Fetching terminated but no final segment number has been found''
                      (s\<lparr>m_segmentFetchers := fs\<rparr>))
             else Inr (s\<lparr>m_segmentFetchers := fs, m_hasFailure := True\<rparr>)))"

section \<open>Runs\<close>

text \<open>
  Modelled from the spec: when the fetch tasks call the handlers (\<open>DataFetcher\<close> is
  not among the sources). After \<open>doRun\<close> the fetch task of a slot resolves with a
  response or with a permanent failure, or the owner calls \<open>cancel()\<close>. A fetch task
  resolves at most once and only while it is running, it is no longer running when it
  calls the handler, and the response it hands over is the one for its own Interest.
\<close>

datatype event = Arrive nat data | Fail nat string | Cancel

definition resolve_slot :: "(fetcher \<Rightarrow> fetcher) \<Rightarrow> nat \<Rightarrow> pipeline \<Rightarrow> pipeline" where
  "resolve_slot mark pipeNo s =
     s\<lparr>m_segmentFetchers :=
         (m_segmentFetchers s)[pipeNo := (map_option mark (fst (m_segmentFetchers s ! pipeNo)),
                                        snd (m_segmentFetchers s ! pipeNo))]\<rparr>"

definition slot_running :: "slot \<Rightarrow> bool" where
  "slot_running sl = (case fst sl of None \<Rightarrow> False | Some f \<Rightarrow> isRunning f)"

definition running_at :: "pipeline \<Rightarrow> nat \<Rightarrow> bool" where
  "running_at s pipeNo =
     (pipeNo < length (m_segmentFetchers s) \<and> slot_running (m_segmentFetchers s ! pipeNo))"

fun step :: "miss \<Rightarrow> pipeline \<Rightarrow> event \<Rightarrow> fault + pipeline" where
  "step ms s (Arrive pipeNo d) =
     (if running_at s pipeNo \<and> segment d = snd (m_segmentFetchers s ! pipeNo) then
        handleData ms (segment d) d pipeNo (resolve_slot (\<lambda>f. f\<lparr>m_isStopped := True\<rparr>) pipeNo s)
      else Inr s)"
| "step ms s (Fail pipeNo reason) =
     (if running_at s pipeNo then
        handleFail reason pipeNo (resolve_slot (\<lambda>f. f\<lparr>m_hasError := True\<rparr>) pipeNo s)
      else Inr s)"
| "step ms s Cancel = Inr (cancel s)"

fun run :: "miss \<Rightarrow> pipeline \<Rightarrow> event list \<Rightarrow> fault + pipeline" where
  "run ms s [] = Inr s"
| "run ms s (e # es) = (case step ms s e of Inl f \<Rightarrow> Inl f | Inr s1 \<Rightarrow> run ms s1 es)"

text \<open>A pipeline of the given size, started, then the events.\<close>

definition fetch_all :: "miss \<Rightarrow> nat \<Rightarrow> event list \<Rightarrow> fault + pipeline" where
  "fetch_all ms maxPipelineSize es =
     (case doRun maxPipelineSize (PipelineInterestsFixed maxPipelineSize) of
        Inl f \<Rightarrow> Inl f
      | Inr s \<Rightarrow> run ms s es)"

text \<open>What the caller sees of a run: the segment numbers delivered, in order, and the errors.\<close>

definition observe :: "fault + pipeline \<Rightarrow> fault + nat list \<times> string list" where
  "observe r = (case r of Inl f \<Rightarrow> Inl f | Inr s \<Rightarrow> Inr (map segment (delivered s), failures s))"

section \<open>Example packets and states\<close>

text \<open>
  A SignatureValue element with the given value, in a buffer where zero bytes follow.
\<close>

definition zeros :: memory where
  "zeros i = 0"

definition signature_block :: "bytes \<Rightarrow> block" where
  "signature_block v = Block SignatureValue v zeros"

text \<open>
  Three packets that form a chain: each embeds, as a SignatureValue element of its
  content, the signature value of its successor; the last one carries the FinalBlockId.
\<close>

definition packet0 :: data where
  "packet0 = \<lparr>segment = 0, content = Some [signature_block [10]],
               signatureValue = signature_block [5], finalBlock = None\<rparr>"

definition packet1 :: data where
  "packet1 = \<lparr>segment = 1, content = Some [signature_block [11]],
               signatureValue = signature_block [10], finalBlock = None\<rparr>"

definition packet2 :: data where
  "packet2 = \<lparr>segment = 2, content = Some [signature_block [12]],
               signatureValue = signature_block [11], finalBlock = Some 2\<rparr>"

text \<open>A segment 0 whose embedded commitment is two bytes long.\<close>

definition long_packet0 :: data where
  "long_packet0 = \<lparr>segment = 0, content = Some [signature_block [10, 20]],
                    signatureValue = signature_block [5], finalBlock = None\<rparr>"

text \<open>A segment 0 that declares segment \<open>k\<close> to be the last one.\<close>

definition ending_packet0 :: "nat \<Rightarrow> data" where
  "ending_packet0 k = \<lparr>segment = 0, content = Some [signature_block [10]],
                       signatureValue = signature_block [5], finalBlock = Some k\<rparr>"

text \<open>
  The state inside \<open>handleData\<close>, before the refill, of a pipeline of three slots in
  which segment 2 has failed and segment 0 has then arrived and declared segment 1 the
  last one.
\<close>

definition latched_state :: pipeline where
  "latched_state =
     \<lparr>m_segmentFetchers =
        [(Some \<lparr>m_isStopped = True, m_hasError = False\<rparr>, 0),
         (Some \<lparr>m_isStopped = False, m_hasError = False\<rparr>, 1),
         (Some \<lparr>m_isStopped = False, m_hasError = True\<rparr>, 2)],
      m_hasFailure = True, m_hasFinalBlockId = True, m_lastSegmentNo = 1,
      m_nextSegmentNo = 3, m_isStopping = False,
      hash_map = [(0, signature_block [10])], hash_data = [],
      requested = [0, 1, 2], delivered = [ending_packet0 1], failures = []\<rparr>"

text \<open>
  The state of a pipeline of three slots after segments 0 and 1 of the chain have
  arrived in order, and the state after segment 2 has then arrived.
\<close>

definition before_last :: pipeline where
  "before_last =
     \<lparr>m_segmentFetchers =
        [(Some \<lparr>m_isStopped = False, m_hasError = False\<rparr>, 3),
         (Some \<lparr>m_isStopped = False, m_hasError = False\<rparr>, 4),
         (Some \<lparr>m_isStopped = False, m_hasError = False\<rparr>, 2)],
      m_hasFailure = False, m_hasFinalBlockId = False, m_lastSegmentNo = 0,
      m_nextSegmentNo = 5, m_isStopping = False,
      hash_map = [(0, signature_block [10]), (1, signature_block [11])], hash_data = [],
      requested = [0, 1, 2, 3, 4], delivered = [packet0, packet1], failures = []\<rparr>"

definition after_last :: pipeline where
  "after_last =
     \<lparr>m_segmentFetchers =
        [(Some \<lparr>m_isStopped = True, m_hasError = False\<rparr>, 3),
         (Some \<lparr>m_isStopped = True, m_hasError = False\<rparr>, 4),
         (Some \<lparr>m_isStopped = True, m_hasError = False\<rparr>, 2)],
      m_hasFailure = False, m_hasFinalBlockId = True, m_lastSegmentNo = 2,
      m_nextSegmentNo = 5, m_isStopping = False,
      hash_map = [(0, signature_block [10]), (1, signature_block [11]),
                  (2, signature_block [12])], hash_data = [],
      requested = [0, 1, 2, 3, 4], delivered = [packet0, packet1, packet2], failures = []\<rparr>"

section \<open>Properties of states and of steps\<close>

text \<open>
  The state \<open>onFailure\<close> leaves when the pipeline was not stopping: slots cleared,
  stopping, one more failure reported.
\<close>

definition aborted :: "string \<Rightarrow> pipeline \<Rightarrow> pipeline" where
  "aborted r s = s\<lparr>m_segmentFetchers := [], m_isStopping := True, failures := failures s @ [r]\<rparr>"

text \<open>No fetcher bound to a segment number beyond the last one is running.\<close>

definition beyond_cancelled :: "pipeline \<Rightarrow> bool" where
  "beyond_cancelled s =
     list_all (\<lambda>sl. snd sl \<le> m_lastSegmentNo s \<or> \<not> slot_running sl) (m_segmentFetchers s)"

text \<open>
  A part of a handler is \<open>quiet\<close> when it leaves the final segment number and the
  requests alone and starts no fetcher beyond the last segment. A step \<open>latches\<close>
  when a known final segment number stays as it is, an unknown one becomes known only
  as the value of the marker the step has seen, every request the step sends lies within
  a final number known after the step, and no fetcher beyond it is left running.
\<close>

definition quiet :: "pipeline \<Rightarrow> pipeline \<Rightarrow> bool" where
  "quiet s s1 =
     (m_hasFinalBlockId s1 = m_hasFinalBlockId s \<and> m_lastSegmentNo s1 = m_lastSegmentNo s
      \<and> requested s1 = requested s
      \<and> (beyond_cancelled s \<longrightarrow> beyond_cancelled s1))"

definition latches :: "nat option \<Rightarrow> pipeline \<Rightarrow> pipeline \<Rightarrow> bool" where
  "latches marker s s' =
     ((m_hasFinalBlockId s \<longrightarrow> m_hasFinalBlockId s' \<and> m_lastSegmentNo s' = m_lastSegmentNo s)
      \<and> (\<not> m_hasFinalBlockId s \<and> m_hasFinalBlockId s' \<longrightarrow> marker = Some (m_lastSegmentNo s'))
      \<and> (\<exists>new. requested s' = requested s @ new
            \<and> (m_hasFinalBlockId s' \<longrightarrow> list_all (\<lambda>n. n \<le> m_lastSegmentNo s') new))
      \<and> ((m_hasFinalBlockId s \<longrightarrow> beyond_cancelled s) \<and> m_hasFinalBlockId s'
            \<longrightarrow> beyond_cancelled s'))"

text \<open>The end-of-content marker an event carries.\<close>

fun marker :: "event \<Rightarrow> nat option" where
  "marker (Arrive pipeNo d) = finalBlock d"
| "marker (Fail pipeNo reason) = None"
| "marker Cancel = None"

definition final_kept :: "pipeline \<Rightarrow> pipeline \<Rightarrow> bool" where
  "final_kept s s' =
     (m_hasFinalBlockId s' \<and> m_lastSegmentNo s' = m_lastSegmentNo s
      \<and> (\<exists>new. requested s' = requested s @ new \<and> list_all (\<lambda>n. n \<le> m_lastSegmentNo s) new)
      \<and> beyond_cancelled s')"

text \<open>
  The invariant behind single delivery. A slot is \<open>calmer\<close> than another when it is
  bound to the same segment number, is empty exactly when the other is, and runs only
  if the other does. The segments that are done are the delivered ones and the ones held
  in \<open>hash_data\<close>. A state is \<open>coherent\<close> when no two bound slots share a segment
  number, every bound segment number has been handed out by the counter, no segment is
  done twice, every done segment has been handed out, and no running fetcher is bound
  to a done segment. While the response for segment \<open>sg\<close> is being handled, \<open>sg\<close> is
  not yet done and no running fetcher is bound to it.
\<close>

definition calmer :: "slot \<Rightarrow> slot \<Rightarrow> bool" where
  "calmer a b =
     (snd b = snd a \<and> (fst b = None \<longleftrightarrow> fst a = None) \<and> (slot_running b \<longrightarrow> slot_running a))"

definition slots_distinct :: "slot list \<Rightarrow> bool" where
  "slots_distinct fs =
     (\<forall>i<length fs. \<forall>j<length fs.
        i \<noteq> j \<and> fst (fs ! i) \<noteq> None \<and> fst (fs ! j) \<noteq> None \<longrightarrow> snd (fs ! i) \<noteq> snd (fs ! j))"

definition slots_ok :: "slot list \<Rightarrow> nat \<Rightarrow> nat set \<Rightarrow> bool" where
  "slots_ok fs nxt D =
     (slots_distinct fs
      \<and> (\<forall>i<length fs. fst (fs ! i) \<noteq> None \<longrightarrow> snd (fs ! i) < nxt)
      \<and> (\<forall>i<length fs. slot_running (fs ! i) \<longrightarrow> snd (fs ! i) \<notin> D))"

definition done_segments :: "pipeline \<Rightarrow> nat list" where
  "done_segments s = map segment (delivered s) @ map (\<lambda>p. segment (snd p)) (hash_data s)"

definition coherent :: "pipeline \<Rightarrow> bool" where
  "coherent s =
     (slots_ok (m_segmentFetchers s) (m_nextSegmentNo s) (set (done_segments s))
      \<and> distinct (done_segments s)
      \<and> (\<forall>n\<in>set (done_segments s). n < m_nextSegmentNo s))"

definition handling :: "nat \<Rightarrow> pipeline \<Rightarrow> bool" where
  "handling sg s =
     (slots_ok (m_segmentFetchers s) (m_nextSegmentNo s) (insert sg (set (done_segments s)))
      \<and> distinct (done_segments s)
      \<and> (\<forall>n\<in>set (done_segments s). n < m_nextSegmentNo s)
      \<and> sg \<notin> set (done_segments s) \<and> sg < m_nextSegmentNo s)"

text \<open>
  A pipeline of three slots, started, in which the fetch task of slot 2 has just marked
  itself failed; and segment 2 of the chain with another signature.
\<close>

definition failing_state :: pipeline where
  "failing_state =
     \<lparr>m_segmentFetchers =
        [(Some \<lparr>m_isStopped = False, m_hasError = False\<rparr>, 0),
         (Some \<lparr>m_isStopped = False, m_hasError = False\<rparr>, 1),
         (Some \<lparr>m_isStopped = False, m_hasError = True\<rparr>, 2)],
      m_hasFailure = False, m_hasFinalBlockId = False, m_lastSegmentNo = 0,
      m_nextSegmentNo = 3, m_isStopping = False,
      hash_map = [], hash_data = [],
      requested = [0, 1, 2], delivered = [], failures = []\<rparr>"

definition forged_packet2 :: data where
  "forged_packet2 = \<lparr>segment = 2, content = Some [signature_block [12]],
                      signatureValue = signature_block [99], finalBlock = Some 2\<rparr>"

text \<open>
  The loops of \<open>handleFail\<close> and of the discovery of the final segment, said without
  recursion: every fetcher after the failed segment cancelled; a slot within the bound
  whose fetcher has an error.
\<close>

definition cancel_after :: "nat \<Rightarrow> slot list \<Rightarrow> slot list" where
  "cancel_after failed fs =
     map (\<lambda>sl. if snd sl > failed then (map_option fetcher_cancel (fst sl), snd sl) else sl) fs"

definition errored_within :: "nat \<Rightarrow> slot \<Rightarrow> bool" where
  "errored_within k sl = (case fst sl of None \<Rightarrow> False | Some f \<Rightarrow> snd sl \<le> k \<and> hasError f)"

text \<open>
  Segment 1 of the chain with a signature one byte longer than the commitment segment 0
  embeds for it.
\<close>

definition heavy_packet1 :: data where
  "heavy_packet1 = \<lparr>segment = 1, content = Some [signature_block [11]],
                     signatureValue = signature_block [10, 0], finalBlock = None\<rparr>"

text \<open>Segment 0 with a content that is not a sequence of TLV elements.\<close>

definition unparsed_packet0 :: data where
  "unparsed_packet0 = \<lparr>segment = 0, content = None, signatureValue = signature_block [9],
                        finalBlock = None\<rparr>"

text \<open>
  The ways a run can end without a state: an exception of the TLV library, thrown
  before the handler has changed anything, or, when the unchecked lookups are read as
  faulting, the dereference of an end iterator. A slot is free for a refill when it is
  one of the slots and its fetcher, if any, is not running.
\<close>

definition expected_fault :: "miss \<Rightarrow> fault \<Rightarrow> bool" where
  "expected_fault ms f = (f = TlvError \<or> (ms = MissFaults \<and> f = EndIteratorDeref))"

definition slot_free :: "nat \<Rightarrow> pipeline \<Rightarrow> bool" where
  "slot_free i s = (i < length (m_segmentFetchers s) \<and> \<not> slot_running (m_segmentFetchers s ! i))"

section \<open>Evaluation\<close>

lemmas model_defs = observe_def fetch_all_def doRun_def PipelineInterestsFixed_def
  fetchNextSegment_def isStopping_def getNextSegmentNo_def fetch_def running_at_def
  slot_running_def resolve_slot_def handleData_def handleFail_def toInt_def to_int32_def
  memcmp_def value_at_def value_size_def resolve_pending_def
  verify_segment_def discover_final_def finish_or_refill_def find_second_def insert_pair_def
  erase_def onData_def onFailure_def cancel_def doCancel_def clear_def cancel_fetchers_def
  allSegmentsReceived_def pending_compare_def direct_compare_def SignatureValue_def
  isRunning_def hasError_def fetcher_cancel_def to_string_def

lemmas packet_defs = packet0_def packet1_def packet2_def long_packet0_def ending_packet0_def
  signature_block_def

section \<open>Arrival out of order\<close>

text \<open>
  C1. Segments 0, 1 and 2 form a valid chain and segment 2 carries the final marker. The
  specification says that for the arrival order 2, 0, 1 segment 2 is held, and 0, 1, 2 are delivered
  in this order. In the code the first arrival already reads the commitment of segment 1
  through an end iterator; and when that read yields null, segment 2 is held, segment 0
  is delivered, and the arrival of segment 1 compares the value embedded in segment 1
  with the value embedded in segment 2, which differ: the pipeline fails after one
  delivery. For the arrival order 1, 2, 0 segment 1 is held, the delivery of segment 2
  erases it from the cache (line 159 erases the key of the predecessor), and segment 1
  is never delivered. In order of sequence the same packets are all delivered.
\<close>

theorem out_of_order_arrival:
  "observe (fetch_all MissFaults 3 [Arrive 2 packet2, Arrive 0 packet0, Arrive 1 packet1])
     = Inl EndIteratorDeref
   \<and> observe (fetch_all MissIsNull 3 [Arrive 2 packet2, Arrive 0 packet0, Arrive 1 packet1])
     = Inr ([0], [''Failure hash key error''])
   \<and> map_sum id (\<lambda>s. (map segment (delivered s), hash_data s, failures s))
        (fetch_all MissIsNull 3 [Arrive 1 packet1, Arrive 2 packet2, Arrive 0 packet0])
     = Inr ([2, 0], [], [])
   \<and> observe (fetch_all MissIsNull 3 [Arrive 0 packet0, Arrive 1 packet1, Arrive 2 packet2])
     = Inr ([0, 1, 2], [])"
  by (simp add: model_defs packet_defs eval_nat_numeral)

section \<open>The two comparisons\<close>

text \<open>
  C2. The specification says that the direct path and the pending-cache path compute the same
  comparison. For the same pair, segment 0 and its successor segment 1, the comparison
  of line 156 finds no difference (the signature of segment 1 is the value segment 0
  embeds) and the comparison of line 135 finds one (it compares the values the two
  contents embed). So the arrival order 0, 1 delivers both and the order 1, 0 fails.
\<close>

theorem comparison_paths_differ:
  "direct_compare packet1 (signature_block [10]) = False
   \<and> pending_compare packet0 [signature_block [10]] packet1 = Inr True
   \<and> observe (fetch_all MissIsNull 2 [Arrive 0 packet0, Arrive 1 packet1]) = Inr ([0, 1], [])
   \<and> observe (fetch_all MissIsNull 2 [Arrive 1 packet1, Arrive 0 packet0])
     = Inr ([], [''Failure hash key error''])"
  by (simp add: model_defs packet_defs eval_nat_numeral)

section \<open>A predecessor that has left no commitment\<close>

text \<open>
  C3. The specification says that a response for segment N > 0 whose predecessor has no entry in
  the commitment table is cached and held, every lookup being guarded by a presence test.
  The code has no presence test: when segment 1 arrives first, line 152 reads
  \<open>hash_map.find(0)->second\<close> on the empty table. Either that read is an access outside
  the table, or it yields a value that the code then uses as the null pointer to decide
  to hold the response.
\<close>

theorem absent_predecessor_lookup:
  "fetch_all MissFaults 2 [Arrive 1 packet1] = Inl EndIteratorDeref
   \<and> map_sum id (\<lambda>s. (hash_data s, delivered s, failures s))
        (fetch_all MissIsNull 2 [Arrive 1 packet1])
     = Inr ([(1, packet1)], [], [])"
  by (simp add: model_defs packet_defs eval_nat_numeral)

section \<open>A failure latched before the final segment number is known\<close>

text \<open>
  C4. The specification says that a failure latched while the final segment number is unknown
  becomes a fatal error, when a later response reveals the final number, exactly when
  an errored slot lies within the bound. In a pipeline of four slots segment 3 fails
  and segment 0 then declares segment 2 the last one: the errored slot is beyond the
  bound, and the pipeline still ends with a fatal error, raised by the refill.
\<close>

theorem latched_failure_after_final:
  "map_sum id (\<lambda>s. (m_hasFailure s, m_isStopping s, map snd (m_segmentFetchers s), failures s))
     (fetch_all ms 4 [Fail 3 ''timeout''])
   = Inr (True, False, [0, 1, 2, 3], [])
   \<and> map_sum id (\<lambda>s. (m_hasFinalBlockId s, m_lastSegmentNo s, map segment (delivered s), failures s))
     (fetch_all ms 4 [Fail 3 ''timeout'', Arrive 0 (ending_packet0 2)])
   = Inr (True, 2, [0], [''Fetching terminated but no final segment number has been found''])"
  by (cases ms) (simp_all add: model_defs packet_defs eval_nat_numeral)

text \<open>
  C5. The specification says that \<open>fetchNextSegment\<close> reports the latched failure only while the
  final segment number is unknown, and reports nothing when the final number is known
  and the candidate exceeds it. The code tests \<open>m_hasFailure\<close> alone: in a state where
  the final number is known (1) and the candidate (3) exceeds it, it reports that no
  final segment number has been found.
\<close>

theorem refill_with_latched_failure:
  "m_hasFinalBlockId latched_state \<and> \<not> isStopping latched_state \<and> m_hasFailure latched_state
   \<and> m_lastSegmentNo latched_state < m_nextSegmentNo latched_state
   \<and> map_sum id (\<lambda>(ok, s). (ok, requested s, failures s)) (fetchNextSegment 0 latched_state)
     = Inr (False, [0, 1, 2], [''Fetching terminated but no final segment number has been found''])
   \<and> fetch_all MissFaults 3 [Fail 2 ''timeout'', Arrive 0 (ending_packet0 1)]
     = map_sum id snd (fetchNextSegment 0 latched_state)"
  by (simp add: model_defs packet_defs latched_state_def eval_nat_numeral)

section \<open>A signature shorter than the commitment\<close>

text \<open>
  C7. The specification says that any mismatch between the commitment of segment N - 1 and the
  verified value of segment N is fatal. The comparison of line 156 runs over the length
  of the signature only: segment 0 commits to the two bytes 10, 20, segment 1 is signed
  with the one byte 10, and segment 1 is delivered.
\<close>

theorem prefix_signature_accepted:
  "observe (fetch_all ms 2 [Arrive 0 long_packet0, Arrive 1 packet1]) = Inr ([0, 1], [])
   \<and> get (the (content long_packet0)) SignatureValue = Inr (signature_block [10, 20])
   \<and> tlv_value (signatureValue packet1) = [10]"
  by (cases ms) (simp_all add: model_defs packet_defs eval_nat_numeral)

section \<open>Reads past a value, keys at the ends of the range\<close>

text \<open>
  A signature longer than the recorded commitment is compared through the bytes that
  follow the commitment, and the handler goes on: here they are equal, and segment 1 is
  delivered. The key of the predecessor of segment \<open>2^31\<close> wraps to \<open>2^31 - 1\<close>.
\<close>

lemma overread_reads_on:
  "observe (fetch_all ms 2 [Arrive 0 packet0, Arrive 1 heavy_packet1]) = Inr ([0, 1], [])"
  by (cases ms)
     (simp_all add: model_defs packet_defs heavy_packet1_def zeros_def eval_nat_numeral)

lemma keys_wrap:
  "toInt 2147483648 = - 2147483648 \<and> to_int32 (toInt 2147483648 - 1) = 2147483647
   \<and> to_int32 (toInt 2147483647 + 1) = toInt 2147483648"
  by (simp add: toInt_def to_int32_def)

section \<open>Cancellation\<close>


lemma run_stopped: "m_isStopping s \<Longrightarrow> m_segmentFetchers s = [] \<Longrightarrow> run ms s es = Inr s"
proof (induction es)
  case Nil
  then show ?case by simp
next
  case (Cons e es)
  then show ?case by (cases e) (simp_all add: running_at_def cancel_def)
qed



section \<open>A failure beyond the final segment\<close>

text \<open>
  C10. When the final segment number is known and the failed slot's segment number is
  greater than it, \<open>handleFail\<close> returns the state unchanged: no event, nothing latched,
  nothing cancelled, no refill, slots and both tables as they were.
\<close>

theorem handleFail_beyond_final:
  "m_hasFinalBlockId s \<Longrightarrow> pipeNo < length (m_segmentFetchers s)
   \<Longrightarrow> m_lastSegmentNo s < snd (m_segmentFetchers s ! pipeNo)
   \<Longrightarrow> handleFail reason pipeNo s = Inr s"
  by (simp add: handleFail_def)

theorem handleFail_beyond_final_witness:
  "m_hasFinalBlockId latched_state \<and> 2 < length (m_segmentFetchers latched_state)
   \<and> m_lastSegmentNo latched_state < snd (m_segmentFetchers latched_state ! 2)
   \<and> \<not> isStopping latched_state
   \<and> handleFail ''nack'' 2 latched_state = Inr latched_state"
  using handleFail_beyond_final [of latched_state 2 "''nack''"]
  by (simp add: latched_state_def isStopping_def)

section \<open>The stages of the handlers\<close>

lemma onFailure_running: "\<not> m_isStopping s \<Longrightarrow> onFailure r s = aborted r s"
  by (simp add: onFailure_def cancel_def doCancel_def clear_def cancel_fetchers_def aborted_def)

lemma find_second_Some: "find_second ms m k = Inr (Some v) \<Longrightarrow> map_of m k = Some v"
  by (simp add: find_second_def split: option.splits miss.splits)

lemma resolve_pending_cases:
  assumes "resolve_pending ms k d els s = Inr (fl, s1)" and "\<not> m_isStopping s"
  shows "(fl = Returns \<and> s1 = aborted ''Failure hash key error'' s)
       \<or> (\<exists>cData. fl = Continues \<and> map_of (hash_data s) (to_int32 (k + 1)) = Some cData
             \<and> s1 = s\<lparr>hash_data := erase (to_int32 (k + 1)) (hash_data s),
                      delivered := delivered s @ [cData]\<rparr>)
       \<or> (fl = Continues \<and> s1 = s\<lparr>hash_map := record_commitments k els (hash_map s)\<rparr>)"
proof (cases "if hash_data s = [] then Inr None
              else find_second ms (hash_data s) (to_int32 (k + 1))")
  case (Inl e)
  then show ?thesis using assms(1) by (simp add: resolve_pending_def)
next
  case (Inr found)
  show ?thesis
  proof (cases found)
    case None
    then show ?thesis using assms(1) Inr by (simp add: resolve_pending_def)
  next
    case (Some cData)
    have look: "map_of (hash_data s) (to_int32 (k + 1)) = Some cData"
      using Inr Some by (auto split: if_splits dest: find_second_Some)
    show ?thesis
    proof (cases "pending_compare d els cData")
      case (Inl e)
      then show ?thesis using assms(1) Inr Some by (simp add: resolve_pending_def)
    next
      case (Inr differ)
      then show ?thesis
        using assms \<open>_ = Inr found\<close> Some look
        by (cases differ) (simp_all add: resolve_pending_def onFailure_running onData_def)
    qed
  qed
qed

lemma verify_segment_cases:
  assumes "verify_segment ms k d s = Inr (fl, s1)" and "\<not> m_isStopping s"
  shows "(fl = Returns \<and> s1 = aborted ''Failure hash key error'' s)
       \<or> (fl = Continues \<and> s1 = s\<lparr>hash_data := insert_pair k d (hash_data s)\<rparr>)
       \<or> (fl = Continues
            \<and> s1 = s\<lparr>hash_data := erase (to_int32 (k - 1)) (hash_data s),
                     delivered := delivered s @ [d]\<rparr>)
       \<or> (fl = Continues \<and> s1 = s\<lparr>delivered := delivered s @ [d]\<rparr>)"
proof (cases "k = 0")
  case True
  then show ?thesis using assms(1) by (simp add: verify_segment_def onData_def)
next
  case False
  show ?thesis
  proof (cases "find_second ms (hash_map s) (to_int32 (k - 1))")
    case (Inl e)
    then show ?thesis using assms(1) False by (simp add: verify_segment_def)
  next
    case (Inr found)
    show ?thesis
    proof (cases found)
      case None
      then show ?thesis using assms(1) False Inr by (simp add: verify_segment_def)
    next
      case (Some hash_block)
      show ?thesis
        using assms False Inr Some
        by (cases "direct_compare d hash_block")
           (simp_all add: verify_segment_def onFailure_running onData_def)
    qed
  qed
qed

lemma handleData_stages:
  assumes "handleData ms seg d i s = Inr s'" and "\<not> m_isStopping s"
  shows "\<exists>els fl1 s1. content d = Some els
      \<and> resolve_pending ms (toInt seg) d els s = Inr (fl1, s1)
      \<and> (if fl1 = Returns then s' = s1
         else \<exists>fl2 s2. verify_segment ms (toInt seg) d s1 = Inr (fl2, s2)
           \<and> (if fl2 = Returns then s' = s2
              else \<exists>fl3 s3. discover_final d s2 = (fl3, s3)
                \<and> (if fl3 = Returns then s' = s3 else finish_or_refill i s3 = Inr s')))"
  using assms
  by (auto simp: handleData_def isStopping_def Let_def
           split: if_splits option.splits sum.splits prod.splits flow.splits)

lemma cancel_beyond_all:
  "cancel_beyond k fs = (fs', None) \<Longrightarrow> list_all (\<lambda>sl. snd sl \<le> k \<or> \<not> slot_running sl) fs'"
proof (induction k fs arbitrary: fs' rule: cancel_beyond.induct)
  case (1 k)
  then show ?case by simp
next
  case (2 k n fs)
  then show ?case by (auto simp: slot_running_def split: prod.splits)
next
  case (3 k f n fs)
  then show ?case
    by (auto simp: slot_running_def fetcher_cancel_def isRunning_def split: prod.splits if_splits)
qed

lemma discover_final_cases:
  assumes "discover_final d s = (fl, s1)" and "\<not> m_isStopping s"
  shows "(fl = Continues \<and> s1 = s \<and> (m_hasFinalBlockId s \<or> finalBlock d = None))
       \<or> (\<exists>k fs. \<not> m_hasFinalBlockId s \<and> finalBlock d = Some k \<and> fl = Continues
             \<and> cancel_beyond k (m_segmentFetchers s) = (fs, None)
             \<and> s1 = s\<lparr>m_lastSegmentNo := k, m_hasFinalBlockId := True, m_segmentFetchers := fs\<rparr>)
       \<or> (\<exists>k fs n. \<not> m_hasFinalBlockId s \<and> finalBlock d = Some k \<and> fl = Returns
             \<and> cancel_beyond k (m_segmentFetchers s) = (fs, Some n)
             \<and> s1 = aborted (''Failure retrieving segment #'' @ to_string n)
                      (s\<lparr>m_lastSegmentNo := k, m_hasFinalBlockId := True, m_segmentFetchers := fs\<rparr>))"
proof (cases "finalBlock d")
  case None
  then show ?thesis using assms(1) by (simp add: discover_final_def)
next
  case (Some k)
  show ?thesis
  proof (cases "m_hasFinalBlockId s")
    case True
    then show ?thesis using assms(1) Some by (simp add: discover_final_def)
  next
    case False
    obtain fs r where cb: "cancel_beyond k (m_segmentFetchers s) = (fs, r)"
      by (cases "cancel_beyond k (m_segmentFetchers s)")
    show ?thesis
      using assms Some False cb
      by (cases r) (simp_all add: discover_final_def onFailure_running)
  qed
qed

lemma fetchNextSegment_cases:
  assumes "fetchNextSegment i s = Inr (ok, s1)" and "\<not> m_isStopping s"
  shows "(\<not> ok \<and> m_hasFailure s
            \<and> s1 = aborted ''Fetching terminated but no final segment number has been found'' s)
       \<or> (\<not> ok \<and> \<not> m_hasFailure s \<and> m_hasFinalBlockId s \<and> m_nextSegmentNo s > m_lastSegmentNo s
            \<and> s1 = s\<lparr>m_nextSegmentNo := m_nextSegmentNo s + 1\<rparr>)
       \<or> (ok \<and> \<not> m_hasFailure s \<and> \<not> (m_hasFinalBlockId s \<and> m_nextSegmentNo s > m_lastSegmentNo s)
            \<and> i < length (m_segmentFetchers s) \<and> \<not> slot_running (m_segmentFetchers s ! i)
            \<and> s1 = s\<lparr>m_nextSegmentNo := m_nextSegmentNo s + 1,
                     requested := requested s @ [m_nextSegmentNo s],
                     m_segmentFetchers :=
                       (m_segmentFetchers s)[i := (Some fetch, m_nextSegmentNo s)]\<rparr>)"
proof (cases "m_hasFailure s")
  case True
  then show ?thesis
    using assms by (simp add: fetchNextSegment_def isStopping_def onFailure_running)
next
  case False
  show ?thesis
  proof (cases "m_hasFinalBlockId s \<and> m_nextSegmentNo s > m_lastSegmentNo s")
    case True
    then show ?thesis
      using assms False by (simp add: fetchNextSegment_def isStopping_def getNextSegmentNo_def)
  next
    case nomore: False
    show ?thesis
    proof (cases "fst (m_segmentFetchers s ! i)")
      case None
      then show ?thesis
        using assms False nomore
        by (simp add: fetchNextSegment_def isStopping_def getNextSegmentNo_def slot_running_def
                 split: if_splits)
    next
      case (Some f)
      then show ?thesis
        using assms False nomore
        by (simp add: fetchNextSegment_def isStopping_def getNextSegmentNo_def slot_running_def
                 split: if_splits)
    qed
  qed
qed

lemma handleFail_cases:
  assumes "handleFail reason i s = Inr s'" and "\<not> m_isStopping s"
  shows "(m_hasFinalBlockId s \<and> (s' = aborted reason s \<or> s' = s))
       \<or> (\<not> m_hasFinalBlockId s
            \<and> s' = aborted ''Fetching terminated but no final segment number has been found'' s)
       \<or> (\<exists>fs stopped. \<not> m_hasFinalBlockId s \<and> i < length (m_segmentFetchers s)
            \<and> cancel_following (snd (m_segmentFetchers s ! i)) (m_segmentFetchers s) = (fs, stopped)
            \<and> (if stopped
                then s' = aborted ''Fetching terminated but no final segment number has been found''
                            (s\<lparr>m_segmentFetchers := fs\<rparr>)
                else s' = s\<lparr>m_segmentFetchers := fs, m_hasFailure := True\<rparr>))"
proof (cases "m_hasFinalBlockId s")
  case True
  then show ?thesis
    using assms by (simp add: handleFail_def isStopping_def onFailure_running split: if_splits)
next
  case False
  show ?thesis
  proof (cases "list_all (\<lambda>sl. fst sl = None) (m_segmentFetchers s)")
    case True
    then show ?thesis
      using assms False by (simp add: handleFail_def isStopping_def onFailure_running)
  next
    case some: False
    obtain fs stopped where
      cf: "cancel_following (snd (m_segmentFetchers s ! i)) (m_segmentFetchers s) = (fs, stopped)"
      by (cases "cancel_following (snd (m_segmentFetchers s ! i)) (m_segmentFetchers s)")
    show ?thesis
      using assms False some cf
      by (cases stopped)
         (auto simp add: handleFail_def isStopping_def onFailure_running split: if_splits)
  qed
qed

section \<open>The final segment number\<close>

lemma beyond_cancelled_empty: "m_segmentFetchers s = [] \<Longrightarrow> beyond_cancelled s"
  by (simp add: beyond_cancelled_def)

lemma quiet_refl: "quiet s s"
  by (simp add: quiet_def)

lemma quiet_trans: "quiet s s1 \<Longrightarrow> quiet s1 s2 \<Longrightarrow> quiet s s2"
  by (auto simp: quiet_def)

lemma quiet_aborted: "quiet s (aborted r s)"
  by (simp add: quiet_def aborted_def beyond_cancelled_def)


lemma resolve_pending_quiet:
  assumes "resolve_pending ms k d els s = Inr (fl, s1)" and "\<not> m_isStopping s"
  shows "quiet s s1 \<and> (fl = Continues \<longrightarrow> \<not> m_isStopping s1)"
  using resolve_pending_cases [OF assms] assms(2)
  by (auto simp: quiet_def aborted_def beyond_cancelled_def)

lemma verify_segment_quiet:
  assumes "verify_segment ms k d s = Inr (fl, s1)" and "\<not> m_isStopping s"
  shows "quiet s s1 \<and> (fl = Continues \<longrightarrow> \<not> m_isStopping s1)"
  using verify_segment_cases [OF assms] assms(2)
  by (auto simp: quiet_def aborted_def beyond_cancelled_def)

lemma discover_final_latches:
  assumes "discover_final d s = (fl, s1)" and "\<not> m_isStopping s"
  shows "latches (finalBlock d) s s1 \<and> requested s1 = requested s
       \<and> (fl = Continues \<longrightarrow> \<not> m_isStopping s1)"
  using discover_final_cases [OF assms] assms(2)
  by (auto simp: latches_def aborted_def beyond_cancelled_def dest: cancel_beyond_all)

lemma list_all_update: "list_all P fs \<Longrightarrow> P x \<Longrightarrow> list_all P (fs[i := x])"
  using set_update_subset_insert [of fs i x] by (auto simp: list_all_iff)

lemma finish_or_refill_latches:
  assumes "finish_or_refill i s = Inr s'" and "\<not> m_isStopping s"
  shows "latches None s s'"
proof (cases "allSegmentsReceived s")
  case True
  then show ?thesis
    using assms by (simp add: finish_or_refill_def latches_def)
next
  case False
  then obtain ok where "fetchNextSegment i s = Inr (ok, s')"
    using assms(1) by (auto simp: finish_or_refill_def split: sum.splits prod.splits)
  from fetchNextSegment_cases [OF this assms(2)] show ?thesis
    by (auto simp: latches_def aborted_def beyond_cancelled_def slot_running_def
             intro!: list_all_update)
qed

lemma quiet_latches: "quiet s s1 \<Longrightarrow> latches m s s1"
  by (simp add: quiet_def latches_def)

lemma quiet_then_latches: "quiet s s1 \<Longrightarrow> latches m s1 s2 \<Longrightarrow> latches m s s2"
  by (simp add: quiet_def latches_def)

lemma latches_then:
  "latches m s s1 \<Longrightarrow> requested s1 = requested s \<Longrightarrow> latches None s1 s2 \<Longrightarrow> latches m s s2"
  unfolding latches_def by (cases "m_hasFinalBlockId s1") auto

lemma handleData_latches:
  assumes "handleData ms seg d i s = Inr s'" and "\<not> m_isStopping s"
  shows "latches (finalBlock d) s s'"
proof -
  from handleData_stages [OF assms] obtain els fl1 s1 where
    st1: "resolve_pending ms (toInt seg) d els s = Inr (fl1, s1)" and
    rest1: "if fl1 = Returns then s' = s1
         else \<exists>fl2 s2. verify_segment ms (toInt seg) d s1 = Inr (fl2, s2)
           \<and> (if fl2 = Returns then s' = s2
              else \<exists>fl3 s3. discover_final d s2 = (fl3, s3)
                \<and> (if fl3 = Returns then s' = s3 else finish_or_refill i s3 = Inr s'))"
    by blast
  from resolve_pending_quiet [OF st1 assms(2)]
  have q1: "quiet s s1" and c1: "fl1 = Continues \<longrightarrow> \<not> m_isStopping s1" by simp_all
  show ?thesis
  proof (cases fl1)
    case Returns
    then show ?thesis using rest1 q1 by (simp add: quiet_latches)
  next
    case Continues
    then obtain fl2 s2 where
      st2: "verify_segment ms (toInt seg) d s1 = Inr (fl2, s2)" and
      rest2: "if fl2 = Returns then s' = s2
              else \<exists>fl3 s3. discover_final d s2 = (fl3, s3)
                \<and> (if fl3 = Returns then s' = s3 else finish_or_refill i s3 = Inr s')"
      using rest1 by auto
    have n1: "\<not> m_isStopping s1" using c1 Continues by simp
    from verify_segment_quiet [OF st2 n1]
    have q2: "quiet s1 s2" and c2: "fl2 = Continues \<longrightarrow> \<not> m_isStopping s2" by simp_all
    have q: "quiet s s2" using q1 q2 by (rule quiet_trans)
    show ?thesis
    proof (cases fl2)
      case Returns
      then show ?thesis using rest2 q by (simp add: quiet_latches)
    next
      case Continues
      then obtain fl3 s3 where
        st3: "discover_final d s2 = (fl3, s3)" and
        rest3: "if fl3 = Returns then s' = s3 else finish_or_refill i s3 = Inr s'"
        using rest2 by auto
      have n2: "\<not> m_isStopping s2" using c2 Continues by simp
      from discover_final_latches [OF st3 n2]
      have l3: "latches (finalBlock d) s2 s3" and r3: "requested s3 = requested s2"
        and c3: "fl3 = Continues \<longrightarrow> \<not> m_isStopping s3" by simp_all
      show ?thesis
      proof (cases fl3)
        case Returns
        then show ?thesis using rest3 l3 q by (simp add: quiet_then_latches)
      next
        case Continues
        then have "finish_or_refill i s3 = Inr s'" and "\<not> m_isStopping s3"
          using rest3 c3 by simp_all
        then have "latches None s3 s'" by (rule finish_or_refill_latches)
        with l3 r3 have "latches (finalBlock d) s2 s'" by (rule latches_then)
        with q show ?thesis by (rule quiet_then_latches)
      qed
    qed
  qed
qed

lemma handleFail_latches:
  assumes "handleFail reason i s = Inr s'" and "\<not> m_isStopping s"
  shows "latches None s s'"
  using handleFail_cases [OF assms]
  by (auto simp: latches_def aborted_def beyond_cancelled_def split: if_splits)

lemma resolve_slot_quiet:
  assumes "\<And>f. \<not> isRunning (mark f)"
  shows "quiet s (resolve_slot mark i s)"
proof -
  have "\<not> slot_running (map_option mark fo, n)" for fo n
    by (cases fo) (simp_all add: slot_running_def assms)
  then have "beyond_cancelled s \<Longrightarrow> beyond_cancelled (resolve_slot mark i s)"
    by (simp add: beyond_cancelled_def resolve_slot_def list_all_update)
  then show ?thesis
    by (auto simp: quiet_def) (simp_all add: resolve_slot_def)
qed

lemma cancel_quiet: "quiet s (cancel s)"
  by (simp add: quiet_def cancel_def doCancel_def clear_def cancel_fetchers_def beyond_cancelled_def)

lemma latches_refl: "latches m s s"
  by (simp add: latches_def)

lemma step_latches:
  assumes "step ms s e = Inr s'"
  shows "latches (marker e) s s'"
proof (cases e)
  case (Arrive i d)
  let ?r = "resolve_slot (\<lambda>f. f\<lparr>m_isStopped := True\<rparr>) i s"
  have q: "quiet s ?r" by (rule resolve_slot_quiet) (simp add: isRunning_def)
  show ?thesis
  proof (cases "running_at s i \<and> segment d = snd (m_segmentFetchers s ! i)")
    case True
    then have h: "handleData ms (segment d) d i ?r = Inr s'" using assms Arrive by simp
    show ?thesis
    proof (cases "m_isStopping s")
      case True
      then have "s' = ?r" using h by (simp add: handleData_def isStopping_def resolve_slot_def)
      then show ?thesis using q Arrive by (simp add: quiet_latches)
    next
      case False
      then have "\<not> m_isStopping ?r" by (simp add: resolve_slot_def)
      with h have "latches (finalBlock d) ?r s'" by (rule handleData_latches)
      with q show ?thesis using Arrive by (simp add: quiet_then_latches)
    qed
  next
    case False
    then show ?thesis using assms Arrive by (auto simp: latches_refl)
  qed
next
  case (Fail i reason)
  let ?r = "resolve_slot (\<lambda>f. f\<lparr>m_hasError := True\<rparr>) i s"
  have q: "quiet s ?r" by (rule resolve_slot_quiet) (simp add: isRunning_def)
  show ?thesis
  proof (cases "running_at s i")
    case True
    then have h: "handleFail reason i ?r = Inr s'" using assms Fail by simp
    show ?thesis
    proof (cases "m_isStopping s")
      case True
      then have "s' = ?r" using h by (simp add: handleFail_def isStopping_def resolve_slot_def)
      then show ?thesis using q Fail by (simp add: quiet_latches)
    next
      case False
      then have "\<not> m_isStopping ?r" by (simp add: resolve_slot_def)
      with h have "latches None ?r s'" by (rule handleFail_latches)
      with q show ?thesis using Fail by (simp add: quiet_then_latches)
    qed
  next
    case False
    then show ?thesis using assms Fail by (auto simp: latches_refl)
  qed
next
  case Cancel
  then show ?thesis using assms cancel_quiet [of s] by (auto simp: quiet_latches)
qed

lemma run_final_kept:
  "run ms s es = Inr s' \<Longrightarrow> m_hasFinalBlockId s \<Longrightarrow> beyond_cancelled s \<Longrightarrow> final_kept s s'"
proof (induction es arbitrary: s)
  case Nil
  then show ?case by (simp add: final_kept_def)
next
  case (Cons e es)
  then obtain s1 where st: "step ms s e = Inr s1" and rn: "run ms s1 es = Inr s'"
    by (auto split: sum.splits)
  from step_latches [OF st] Cons.prems(2,3)
  have f1: "m_hasFinalBlockId s1" and l1: "m_lastSegmentNo s1 = m_lastSegmentNo s"
    and b1: "beyond_cancelled s1"
    and r1: "\<exists>new. requested s1 = requested s @ new \<and> list_all (\<lambda>n. n \<le> m_lastSegmentNo s) new"
    by (auto simp: latches_def)
  from Cons.IH [OF rn f1 b1] have "final_kept s1 s'" .
  then show ?case using l1 r1 by (auto simp: final_kept_def)
qed

text \<open>
  C6. Take the step in which the final segment number becomes known, and any run after
  it. The step is the arrival of a response that carries the marker, and the number is
  the one it declares; after the run the number is still known and is the same; every
  request sent in that step or later is for a segment number within it; and no fetcher
  bound to a segment number beyond it is running, after the step or after the run.
  The step and the run are those in which every handler returns: a handler that does not
  has thrown an exception of the TLV library, before it has changed anything, or has
  read through an end iterator (section \<open>The faults of a run\<close>); a comparison
  that reads past a value and a key that wraps are steps like any other.
\<close>

theorem final_segment_number_latched:
  assumes "step ms s0 e = Inr s" and "\<not> m_hasFinalBlockId s0" and "m_hasFinalBlockId s"
    and "run ms s es = Inr s'"
  shows "(\<exists>pipeNo d. e = Arrive pipeNo d \<and> finalBlock d = Some (m_lastSegmentNo s))
       \<and> m_hasFinalBlockId s' \<and> m_lastSegmentNo s' = m_lastSegmentNo s
       \<and> (\<exists>new. requested s' = requested s0 @ new \<and> list_all (\<lambda>n. n \<le> m_lastSegmentNo s) new)
       \<and> beyond_cancelled s \<and> beyond_cancelled s'"
proof -
  from step_latches [OF assms(1)] assms(2,3)
  have mk: "marker e = Some (m_lastSegmentNo s)" and b: "beyond_cancelled s"
    and r: "\<exists>new. requested s = requested s0 @ new \<and> list_all (\<lambda>n. n \<le> m_lastSegmentNo s) new"
    by (auto simp: latches_def)
  from mk have "\<exists>pipeNo d. e = Arrive pipeNo d \<and> finalBlock d = Some (m_lastSegmentNo s)"
    by (cases e) simp_all
  moreover from run_final_kept [OF assms(4,3) b] have k: "final_kept s s'" .
  ultimately show ?thesis using b r by (auto simp: final_kept_def)
qed

lemma reach_before_last:
  "fetch_all ms 3 [Arrive 0 packet0, Arrive 1 packet1] = Inr before_last"
  by (cases ms) (simp_all add: model_defs packet_defs before_last_def eval_nat_numeral)

lemma step_after_last: "step ms before_last (Arrive 2 packet2) = Inr after_last"
  by (cases ms) (simp_all add: model_defs packet_defs before_last_def after_last_def eval_nat_numeral)

lemma run_after_last: "run ms after_last [Fail 0 ''nack'', Arrive 1 packet1] = Inr after_last"
  by (simp add: model_defs packet_defs after_last_def)

theorem final_segment_number_latched_witness:
  "step MissFaults before_last (Arrive 2 packet2) = Inr after_last
   \<and> \<not> m_hasFinalBlockId before_last \<and> m_hasFinalBlockId after_last
   \<and> run MissFaults after_last [Fail 0 ''nack'', Arrive 1 packet1] = Inr after_last
   \<and> m_lastSegmentNo after_last = 2
   \<and> requested after_last = requested before_last @ []
   \<and> beyond_cancelled after_last"
  using final_segment_number_latched [of MissFaults before_last "Arrive 2 packet2" after_last
      "[Fail 0 ''nack'', Arrive 1 packet1]" after_last]
    step_after_last [of MissFaults] run_after_last [of MissFaults]
  by (simp add: before_last_def after_last_def)

text \<open>
  The marker is never passed over: when a response that carries it is handled while the
  final segment number is unknown, the number is set to the one declared, unless the
  integrity check has aborted the pipeline first.
\<close>

theorem marker_taken:
  assumes "handleData ms seg d i s = Inr s'" and "\<not> m_isStopping s"
    and "\<not> m_hasFinalBlockId s" and "finalBlock d = Some k"
  shows "(m_hasFinalBlockId s' \<and> m_lastSegmentNo s' = k)
       \<or> (m_isStopping s' \<and> failures s' = failures s @ [''Failure hash key error''])"
proof -
  from handleData_stages [OF assms(1,2)] obtain els fl1 s1 where
    st1: "resolve_pending ms (toInt seg) d els s = Inr (fl1, s1)" and
    rest1: "if fl1 = Returns then s' = s1
         else \<exists>fl2 s2. verify_segment ms (toInt seg) d s1 = Inr (fl2, s2)
           \<and> (if fl2 = Returns then s' = s2
              else \<exists>fl3 s3. discover_final d s2 = (fl3, s3)
                \<and> (if fl3 = Returns then s' = s3 else finish_or_refill i s3 = Inr s'))"
    by blast
  from resolve_pending_cases [OF st1 assms(2)]
  have a1: "fl1 = Returns \<longrightarrow> s1 = aborted ''Failure hash key error'' s"
    and k1: "fl1 = Continues \<longrightarrow> \<not> m_isStopping s1 \<and> \<not> m_hasFinalBlockId s1 \<and> failures s1 = failures s"
    using assms(2,3) by auto
  show ?thesis
  proof (cases fl1)
    case Returns
    then show ?thesis using rest1 a1 by (simp add: aborted_def)
  next
    case Continues
    then obtain fl2 s2 where
      st2: "verify_segment ms (toInt seg) d s1 = Inr (fl2, s2)" and
      rest2: "if fl2 = Returns then s' = s2
              else \<exists>fl3 s3. discover_final d s2 = (fl3, s3)
                \<and> (if fl3 = Returns then s' = s3 else finish_or_refill i s3 = Inr s')"
      using rest1 by auto
    have n1: "\<not> m_isStopping s1" and f1: "\<not> m_hasFinalBlockId s1" and e1: "failures s1 = failures s"
      using k1 Continues by simp_all
    from verify_segment_cases [OF st2 n1]
    have a2: "fl2 = Returns \<longrightarrow> s2 = aborted ''Failure hash key error'' s1"
      and k2: "fl2 = Continues \<longrightarrow> \<not> m_isStopping s2 \<and> \<not> m_hasFinalBlockId s2"
      using n1 f1 by auto
    show ?thesis
    proof (cases fl2)
      case Returns
      then show ?thesis using rest2 a2 e1 by (simp add: aborted_def)
    next
      case Continues
      then obtain fl3 s3 where
        st3: "discover_final d s2 = (fl3, s3)" and
        rest3: "if fl3 = Returns then s' = s3 else finish_or_refill i s3 = Inr s'"
        using rest2 by auto
      have n2: "\<not> m_isStopping s2" and f2: "\<not> m_hasFinalBlockId s2"
        using k2 Continues by simp_all
      from discover_final_cases [OF st3 n2] f2 assms(4)
      have set3: "m_hasFinalBlockId s3 \<and> m_lastSegmentNo s3 = k"
        and c3: "fl3 = Continues \<longrightarrow> \<not> m_isStopping s3"
        using n2 by (auto simp: aborted_def)
      show ?thesis
      proof (cases fl3)
        case Returns
        then show ?thesis using rest3 set3 by simp
      next
        case Continues
        then have "finish_or_refill i s3 = Inr s'" and "\<not> m_isStopping s3"
          using rest3 c3 by simp_all
        then have "latches None s3 s'" by (rule finish_or_refill_latches)
        then show ?thesis using set3 by (simp add: latches_def)
      qed
    qed
  qed
qed

theorem marker_taken_witness:
  "handleData MissFaults 2 packet2 2 (resolve_slot (\<lambda>f. f\<lparr>m_isStopped := True\<rparr>) 2 before_last)
     = Inr after_last
   \<and> \<not> m_isStopping (resolve_slot (\<lambda>f. f\<lparr>m_isStopped := True\<rparr>) 2 before_last)
   \<and> \<not> m_hasFinalBlockId (resolve_slot (\<lambda>f. f\<lparr>m_isStopped := True\<rparr>) 2 before_last)
   \<and> finalBlock packet2 = Some 2
   \<and> m_hasFinalBlockId after_last \<and> m_lastSegmentNo after_last = 2"
  using marker_taken [of MissFaults 2 packet2 2
      "resolve_slot (\<lambda>f. f\<lparr>m_isStopped := True\<rparr>) 2 before_last" after_last 2]
    step_after_last [of MissFaults]
  by (simp add: before_last_def after_last_def packet2_def running_at_def slot_running_def
        isRunning_def resolve_slot_def)

section \<open>Single delivery and single binding\<close>

lemma slot_running_bound: "slot_running sl \<Longrightarrow> fst sl \<noteq> None"
  by (cases "fst sl") (simp_all add: slot_running_def)

lemma done_segments_frame:
  "done_segments (s\<lparr>m_segmentFetchers := a\<rparr>) = done_segments s"
  "done_segments (s\<lparr>m_hasFailure := b\<rparr>) = done_segments s"
  "done_segments (s\<lparr>m_hasFinalBlockId := c\<rparr>) = done_segments s"
  "done_segments (s\<lparr>m_lastSegmentNo := e\<rparr>) = done_segments s"
  "done_segments (s\<lparr>m_nextSegmentNo := f\<rparr>) = done_segments s"
  "done_segments (s\<lparr>m_isStopping := g\<rparr>) = done_segments s"
  "done_segments (s\<lparr>hash_map := h\<rparr>) = done_segments s"
  "done_segments (s\<lparr>requested := q\<rparr>) = done_segments s"
  "done_segments (s\<lparr>failures := r\<rparr>) = done_segments s"
  by (simp_all add: done_segments_def)

lemma slots_ok_empty: "slots_ok [] nxt D"
  by (simp add: slots_ok_def slots_distinct_def)

lemma slots_ok_calmer:
  assumes "list_all2 calmer fs fs'" and "slots_ok fs nxt D"
  shows "slots_ok fs' nxt D"
proof -
  from assms(1) have len: "length fs' = length fs"
    and nth: "\<And>i. i < length fs \<Longrightarrow> calmer (fs ! i) (fs' ! i)"
    by (simp_all add: list_all2_conv_all_nth)
  show ?thesis
    using assms(2) nth unfolding slots_ok_def slots_distinct_def len calmer_def
    by metis
qed

lemma slots_ok_mono: "slots_ok fs nxt D \<Longrightarrow> D' \<subseteq> D \<Longrightarrow> nxt \<le> nxt' \<Longrightarrow> slots_ok fs nxt' D'"
  unfolding slots_ok_def by (meson in_mono less_le_trans)

lemma calmer_refl: "calmer a a"
  by (simp add: calmer_def)

lemma calmer_cancel: "calmer (Some f, n) (Some (fetcher_cancel f), n)"
  by (simp add: calmer_def slot_running_def fetcher_cancel_def isRunning_def)

lemma cancel_beyond_calmer: "cancel_beyond k fs = (fs', r) \<Longrightarrow> list_all2 calmer fs fs'"
proof (induction k fs arbitrary: fs' r rule: cancel_beyond.induct)
  case (1 k)
  then show ?case by simp
next
  case (2 k n fs)
  then show ?case by (auto simp: calmer_refl split: prod.splits)
next
  case (3 k f n fs)
  then show ?case
    by (auto simp: calmer_refl calmer_cancel list_all2_refl split: prod.splits if_splits)
qed

lemma cancel_following_calmer: "cancel_following k fs = (fs', r) \<Longrightarrow> list_all2 calmer fs fs'"
proof (induction k fs arbitrary: fs' r rule: cancel_following.induct)
  case (1 k)
  then show ?case by simp
next
  case (2 k n fs)
  then show ?case by (auto simp: calmer_refl split: prod.splits)
next
  case (3 k f n fs)
  then show ?case
    by (auto simp: calmer_refl calmer_cancel split: prod.splits if_splits)
qed

lemma update_calmer:
  assumes "i < length fs \<Longrightarrow> calmer (fs ! i) x"
  shows "list_all2 calmer fs (fs[i := x])"
proof -
  have "calmer (fs ! j) (fs[i := x] ! j)" if "j < length fs" for j
    using that assms by (cases "j = i") (simp_all add: calmer_refl)
  then show ?thesis by (simp add: list_all2_conv_all_nth)
qed

lemma coherent_aborted: "coherent s \<Longrightarrow> coherent (aborted r s)"
  by (simp add: coherent_def aborted_def done_segments_frame slots_ok_empty)

lemma handling_coherent: "handling sg s \<Longrightarrow> coherent s"
  unfolding handling_def coherent_def by (blast intro: slots_ok_mono)

lemma filter_map_distinct:
  assumes "distinct (map f xs)" and "x \<in> set xs" and "\<not> P x"
  shows "f x \<notin> f ` set (filter P xs)"
proof
  assume "f x \<in> f ` set (filter P xs)"
  then obtain y where y: "y \<in> set xs" "P y" "f y = f x" by auto
  from assms(1) have "inj_on f (set xs)" by (simp add: distinct_map)
  with y assms(2) have "y = x" by (auto dest: inj_onD)
  with y assms(3) show False by simp
qed

lemma resolve_pending_handling:
  assumes "resolve_pending ms k d els s = Inr (fl, s1)" and "\<not> m_isStopping s"
    and "handling sg s"
  shows "if fl = Returns then coherent s1 else handling sg s1 \<and> \<not> m_isStopping s1"
proof -
  from resolve_pending_cases [OF assms(1,2)]
  consider (mismatch) "fl = Returns" "s1 = aborted ''Failure hash key error'' s"
    | (delivers) cData where "fl = Continues"
        "map_of (hash_data s) (to_int32 (k + 1)) = Some cData"
        "s1 = s\<lparr>hash_data := erase (to_int32 (k + 1)) (hash_data s),
               delivered := delivered s @ [cData]\<rparr>"
    | (recorded) "fl = Continues" "s1 = s\<lparr>hash_map := record_commitments k els (hash_map s)\<rparr>"
    by blast
  then show ?thesis
  proof cases
    case mismatch
    then show ?thesis using assms(3) by (simp add: coherent_aborted handling_coherent)
  next
    case recorded
    then show ?thesis using assms(2,3) by (simp add: handling_def done_segments_frame)
  next
    case delivers
    let ?f = "\<lambda>p. segment (snd p)"
    let ?P = "\<lambda>p. fst p \<noteq> to_int32 (k + 1)"
    have mem: "(to_int32 (k + 1), cData) \<in> set (hash_data s)"
      using delivers(2) by (rule map_of_SomeD)
    have dist: "distinct (map segment (delivered s) @ map ?f (hash_data s))"
      using assms(3) by (simp add: handling_def done_segments_def)
    then have "distinct (map ?f (hash_data s))" by simp
    from filter_map_distinct [OF this mem, of ?P]
    have fresh: "segment cData \<notin> ?f ` set (filter ?P (hash_data s))" by simp
    have sub: "set (done_segments s1) \<subseteq> set (done_segments s)"
      using mem delivers(3) by (force simp: done_segments_def erase_def)
    have d1: "distinct (done_segments s1)"
      using dist fresh mem delivers(3)
      by (force simp: done_segments_def erase_def distinct_map_filter)
    have "slots_ok (m_segmentFetchers s1) (m_nextSegmentNo s1) (insert sg (set (done_segments s1)))"
      using assms(3) sub delivers(3)
      by (auto simp: handling_def intro: slots_ok_mono)
    then show ?thesis
      using delivers(1,3) d1 sub assms(2,3) by (auto simp: handling_def)
  qed
qed

lemma verify_segment_coherent:
  assumes "verify_segment ms k d s = Inr (fl, s1)" and "\<not> m_isStopping s"
    and "handling (segment d) s"
  shows "coherent s1 \<and> (fl = Continues \<longrightarrow> \<not> m_isStopping s1)"
proof -
  let ?sg = "segment d"
  have h: "slots_ok (m_segmentFetchers s) (m_nextSegmentNo s) (insert ?sg (set (done_segments s)))"
    "distinct (done_segments s)" "\<forall>n\<in>set (done_segments s). n < m_nextSegmentNo s"
    "?sg \<notin> set (done_segments s)" "?sg < m_nextSegmentNo s"
    using assms(3) by (simp_all add: handling_def)
  have grow: "coherent s1"
    if "m_segmentFetchers s1 = m_segmentFetchers s" "m_nextSegmentNo s1 = m_nextSegmentNo s"
      "set (done_segments s1) \<subseteq> insert ?sg (set (done_segments s))" "distinct (done_segments s1)"
    for s1
    unfolding coherent_def using that h by (auto intro: slots_ok_mono)
  from verify_segment_cases [OF assms(1,2)]
  consider (mismatch) "fl = Returns" "s1 = aborted ''Failure hash key error'' s"
    | (held) "fl = Continues" "s1 = s\<lparr>hash_data := insert_pair k d (hash_data s)\<rparr>"
    | (delivers) "fl = Continues"
        "s1 = s\<lparr>hash_data := erase (to_int32 (k - 1)) (hash_data s),
               delivered := delivered s @ [d]\<rparr>"
    | (initial) "fl = Continues" "s1 = s\<lparr>delivered := delivered s @ [d]\<rparr>"
    by blast
  then show ?thesis
  proof cases
    case mismatch
    then show ?thesis using assms(3) by (simp add: coherent_aborted handling_coherent)
  next
    case held
    have "coherent s1"
      by (rule grow) (use held(2) h in \<open>auto simp: done_segments_def insert_pair_def\<close>)
    then show ?thesis using held assms(2) by simp
  next
    case delivers
    have "coherent s1"
      by (rule grow)
         (use delivers(2) h in \<open>auto simp: done_segments_def erase_def distinct_map_filter\<close>)
    then show ?thesis using delivers assms(2) by simp
  next
    case initial
    have "coherent s1"
      by (rule grow) (use initial(2) h in \<open>auto simp: done_segments_def\<close>)
    then show ?thesis using initial assms(2) by simp
  qed
qed

lemma coherent_calmer:
  assumes "coherent s" and "list_all2 calmer (m_segmentFetchers s) fs"
  shows "coherent (s\<lparr>m_segmentFetchers := fs\<rparr>)"
  using assms slots_ok_calmer [OF assms(2)]
  by (simp add: coherent_def done_segments_frame)

lemma discover_final_coherent:
  assumes "discover_final d s = (fl, s1)" and "\<not> m_isStopping s" and "coherent s"
  shows "coherent s1 \<and> (fl = Continues \<longrightarrow> \<not> m_isStopping s1)"
proof -
  have upd: "coherent (s\<lparr>m_lastSegmentNo := k, m_hasFinalBlockId := True, m_segmentFetchers := fs\<rparr>)"
    if "cancel_beyond k (m_segmentFetchers s) = (fs, r)" for k fs r
    using coherent_calmer [OF assms(3) cancel_beyond_calmer [OF that]]
    by (simp add: coherent_def done_segments_frame)
  from discover_final_cases [OF assms(1,2)] show ?thesis
    using assms(2,3) by (auto simp: upd intro!: coherent_aborted)
qed

lemma fetchNextSegment_coherent:
  assumes "fetchNextSegment i s = Inr (ok, s1)" and "coherent s"
  shows "coherent s1"
proof (cases "m_isStopping s")
  case True
  then show ?thesis using assms by (simp add: fetchNextSegment_def isStopping_def)
next
  case False
  have ok0: "slots_ok (m_segmentFetchers s) (m_nextSegmentNo s) (set (done_segments s))"
    and d0: "distinct (done_segments s)"
    and b0: "\<forall>n\<in>set (done_segments s). n < m_nextSegmentNo s"
    using assms(2) by (simp_all add: coherent_def)
  from b0 have b1: "\<forall>n\<in>set (done_segments s). n < m_nextSegmentNo s + 1"
    by auto
  from fetchNextSegment_cases [OF assms(1) False]
  consider (latched) "s1 = aborted ''Fetching terminated but no final segment number has been found'' s"
    | (nomore) "s1 = s\<lparr>m_nextSegmentNo := m_nextSegmentNo s + 1\<rparr>"
    | (issued) "i < length (m_segmentFetchers s)"
        "s1 = s\<lparr>m_nextSegmentNo := m_nextSegmentNo s + 1,
                requested := requested s @ [m_nextSegmentNo s],
                m_segmentFetchers := (m_segmentFetchers s)[i := (Some fetch, m_nextSegmentNo s)]\<rparr>"
    by blast
  then show ?thesis
  proof cases
    case latched
    then show ?thesis using assms(2) by (simp add: coherent_aborted)
  next
    case nomore
    have "slots_ok (m_segmentFetchers s) (m_nextSegmentNo s + 1) (set (done_segments s))"
      using ok0 by (rule slots_ok_mono) simp_all
    then show ?thesis using nomore d0 b1 by (simp add: coherent_def done_segments_frame)
  next
    case issued
    let ?fs = "m_segmentFetchers s" and ?n = "m_nextSegmentNo s"
    have "slots_ok (?fs[i := (Some fetch, ?n)]) (?n + 1) (set (done_segments s))"
      unfolding slots_ok_def slots_distinct_def
    proof (intro conjI allI impI)
      fix a b
      assume "a < length (?fs[i := (Some fetch, ?n)])" "b < length (?fs[i := (Some fetch, ?n)])"
        "a \<noteq> b \<and> fst (?fs[i := (Some fetch, ?n)] ! a) \<noteq> None
          \<and> fst (?fs[i := (Some fetch, ?n)] ! b) \<noteq> None"
      then show "snd (?fs[i := (Some fetch, ?n)] ! a) \<noteq> snd (?fs[i := (Some fetch, ?n)] ! b)"
        using ok0 unfolding slots_ok_def slots_distinct_def
        by (cases "a = i"; cases "b = i") (auto simp: nth_list_update)
    next
      fix a
      assume "a < length (?fs[i := (Some fetch, ?n)])" "fst (?fs[i := (Some fetch, ?n)] ! a) \<noteq> None"
      then show "snd (?fs[i := (Some fetch, ?n)] ! a) < ?n + 1"
        using ok0 unfolding slots_ok_def
        by (cases "a = i") (auto simp: nth_list_update less_Suc_eq)
    next
      fix a
      assume "a < length (?fs[i := (Some fetch, ?n)])" "slot_running (?fs[i := (Some fetch, ?n)] ! a)"
      then show "snd (?fs[i := (Some fetch, ?n)] ! a) \<notin> set (done_segments s)"
        using ok0 b0 unfolding slots_ok_def
        by (cases "a = i") (auto simp: nth_list_update)
    qed
    then show ?thesis using issued(2) d0 b1 by (simp add: coherent_def done_segments_frame)
  qed
qed

lemma finish_or_refill_coherent:
  assumes "finish_or_refill i s = Inr s'" and "coherent s"
  shows "coherent s'"
  using assms
  by (auto simp: finish_or_refill_def split: if_splits sum.splits prod.splits
           dest: fetchNextSegment_coherent)

lemma handleData_coherent:
  assumes "handleData ms seg d i s = Inr s'" and "\<not> m_isStopping s"
    and "handling (segment d) s"
  shows "coherent s'"
proof -
  from handleData_stages [OF assms(1,2)] obtain els fl1 s1 where
    st1: "resolve_pending ms (toInt seg) d els s = Inr (fl1, s1)" and
    rest1: "if fl1 = Returns then s' = s1
         else \<exists>fl2 s2. verify_segment ms (toInt seg) d s1 = Inr (fl2, s2)
           \<and> (if fl2 = Returns then s' = s2
              else \<exists>fl3 s3. discover_final d s2 = (fl3, s3)
                \<and> (if fl3 = Returns then s' = s3 else finish_or_refill i s3 = Inr s'))"
    by blast
  note r1 = resolve_pending_handling [OF st1 assms(2,3)]
  show ?thesis
  proof (cases fl1)
    case Returns
    then show ?thesis using rest1 r1 by simp
  next
    case Continues
    then have h1: "handling (segment d) s1" and n1: "\<not> m_isStopping s1"
      using r1 by simp_all
    from Continues rest1 obtain fl2 s2 where
      st2: "verify_segment ms (toInt seg) d s1 = Inr (fl2, s2)" and
      rest2: "if fl2 = Returns then s' = s2
              else \<exists>fl3 s3. discover_final d s2 = (fl3, s3)
                \<and> (if fl3 = Returns then s' = s3 else finish_or_refill i s3 = Inr s')"
      by auto
    from verify_segment_coherent [OF st2 n1 h1]
    have w2: "coherent s2" and c2: "fl2 = Continues \<longrightarrow> \<not> m_isStopping s2" by simp_all
    show ?thesis
    proof (cases fl2)
      case Returns
      then show ?thesis using rest2 w2 by simp
    next
      case Continues
      then obtain fl3 s3 where
        st3: "discover_final d s2 = (fl3, s3)" and
        rest3: "if fl3 = Returns then s' = s3 else finish_or_refill i s3 = Inr s'"
        using rest2 by auto
      have n2: "\<not> m_isStopping s2" using c2 Continues by simp
      from discover_final_coherent [OF st3 n2 w2] have w3: "coherent s3" by simp
      show ?thesis
      proof (cases fl3)
        case Returns
        then show ?thesis using rest3 w3 by simp
      next
        case Continues
        then have "finish_or_refill i s3 = Inr s'" using rest3 by simp
        then show ?thesis using w3 by (rule finish_or_refill_coherent)
      qed
    qed
  qed
qed

lemma handleFail_coherent:
  assumes "handleFail reason i s = Inr s'" and "coherent s"
  shows "coherent s'"
proof (cases "m_isStopping s")
  case True
  then show ?thesis using assms by (simp add: handleFail_def isStopping_def)
next
  case False
  have upd: "coherent (s\<lparr>m_segmentFetchers := fs\<rparr>)"
    if "cancel_following k (m_segmentFetchers s) = (fs, r)" for k fs r
    by (rule coherent_calmer [OF assms(2) cancel_following_calmer [OF that]])
  have latch: "coherent (s\<lparr>m_segmentFetchers := fs, m_hasFailure := True\<rparr>)"
    if "cancel_following k (m_segmentFetchers s) = (fs, r)" for k fs r
    using upd [OF that] by (simp add: coherent_def done_segments_frame)
  from handleFail_cases [OF assms(1) False] show ?thesis
    using assms(2) by (auto simp: upd latch intro!: coherent_aborted split: if_splits)
qed

lemma mark_calmer:
  assumes "\<And>f. \<not> isRunning (mark f)"
  shows "calmer (fo, n) (map_option mark fo, n)"
  by (cases fo) (simp_all add: calmer_def slot_running_def assms)

lemma resolve_slot_coherent:
  assumes "coherent s" and "\<And>f. \<not> isRunning (mark f)"
  shows "coherent (resolve_slot mark i s)"
proof -
  let ?fs = "m_segmentFetchers s"
  have "calmer (?fs ! i) (map_option mark (fst (?fs ! i)), snd (?fs ! i))"
    using mark_calmer [OF assms(2), of "fst (?fs ! i)" "snd (?fs ! i)"] by simp
  then have "list_all2 calmer ?fs (?fs[i := (map_option mark (fst (?fs ! i)), snd (?fs ! i))])"
    by (rule update_calmer)
  with assms(1) show ?thesis
    unfolding resolve_slot_def by (rule coherent_calmer)
qed

lemma resolve_slot_handling:
  assumes "coherent s" and "running_at s i" and "\<And>f. \<not> isRunning (mark f)"
  shows "handling (snd (m_segmentFetchers s ! i)) (resolve_slot mark i s)"
proof -
  let ?fs = "m_segmentFetchers s" and ?sg = "snd (m_segmentFetchers s ! i)"
  let ?x = "(map_option mark (fst (?fs ! i)), ?sg)"
  let ?D = "set (done_segments s)"
  have i: "i < length ?fs" and run: "slot_running (?fs ! i)"
    using assms(2) by (simp_all add: running_at_def)
  have ok: "slots_ok ?fs (m_nextSegmentNo s) ?D" and d: "distinct (done_segments s)"
    and b: "\<forall>n\<in>?D. n < m_nextSegmentNo s"
    using assms(1) by (simp_all add: coherent_def)
  have w: "coherent (resolve_slot mark i s)" using assms(1,3) by (rule resolve_slot_coherent)
  have fresh: "?sg \<notin> ?D" and small: "?sg < m_nextSegmentNo s"
    using ok i run slot_running_bound [OF run] by (auto simp: slots_ok_def)
  have stopped: "\<not> slot_running ?x"
    by (cases "fst (?fs ! i)") (simp_all add: slot_running_def assms(3))
  have other: "snd (?fs[i := ?x] ! j) \<noteq> ?sg" if "j < length ?fs" "slot_running (?fs[i := ?x] ! j)" for j
  proof (cases "j = i")
    case True
    then show ?thesis using that stopped i by simp
  next
    case False
    then have "slot_running (?fs ! j)" using that by simp
    then have "fst (?fs ! j) \<noteq> None" by (rule slot_running_bound)
    then show ?thesis
      using ok i that(1) False slot_running_bound [OF run]
      by (auto simp: slots_ok_def slots_distinct_def)
  qed
  have "slots_ok (?fs[i := ?x]) (m_nextSegmentNo s) (insert ?sg ?D)"
    using w other by (auto simp: coherent_def resolve_slot_def slots_ok_def done_segments_frame)
  then show ?thesis
    using d b fresh small by (simp add: handling_def resolve_slot_def done_segments_frame)
qed

lemma cancel_coherent: "coherent s \<Longrightarrow> coherent (cancel s)"
  by (simp add: cancel_def doCancel_def clear_def cancel_fetchers_def coherent_def done_segments_frame
        slots_ok_empty)

lemma step_coherent:
  assumes "step ms s e = Inr s'" and "coherent s"
  shows "coherent s'"
proof (cases e)
  case (Arrive i d)
  let ?r = "resolve_slot (\<lambda>f. f\<lparr>m_isStopped := True\<rparr>) i s"
  show ?thesis
  proof (cases "running_at s i \<and> segment d = snd (m_segmentFetchers s ! i)")
    case True
    then have h: "handleData ms (segment d) d i ?r = Inr s'" using assms Arrive by simp
    show ?thesis
    proof (cases "m_isStopping s")
      case stopping: True
      then have "s' = ?r" using h by (simp add: handleData_def isStopping_def resolve_slot_def)
      then show ?thesis using assms(2) by (simp add: resolve_slot_coherent isRunning_def)
    next
      case False
      then have n: "\<not> m_isStopping ?r" by (simp add: resolve_slot_def)
      have "handling (segment d) ?r"
        using resolve_slot_handling [OF assms(2), of i "\<lambda>f. f\<lparr>m_isStopped := True\<rparr>"] True
        by (simp add: isRunning_def)
      with h n show ?thesis by (rule handleData_coherent)
    qed
  next
    case False
    then show ?thesis using assms Arrive by auto
  qed
next
  case (Fail i reason)
  let ?r = "resolve_slot (\<lambda>f. f\<lparr>m_hasError := True\<rparr>) i s"
  have "coherent ?r" using assms(2) by (rule resolve_slot_coherent) (simp add: isRunning_def)
  then show ?thesis
    using assms Fail by (auto split: if_splits dest: handleFail_coherent)
next
  case Cancel
  then show ?thesis using assms by (auto simp: cancel_coherent)
qed

lemma run_coherent: "run ms s es = Inr s' \<Longrightarrow> coherent s \<Longrightarrow> coherent s'"
proof (induction es arbitrary: s)
  case Nil
  then show ?case by simp
next
  case (Cons e es)
  then show ?case by (auto split: sum.splits dest: step_coherent)
qed

lemma doRun_loop_coherent: "doRun_loop n left s = Inr s' \<Longrightarrow> coherent s \<Longrightarrow> coherent s'"
proof (induction n left s rule: doRun_loop.induct)
  case (1 n s)
  then show ?case by simp
next
  case (2 n left s)
  then show ?case
    by (auto split: sum.splits prod.splits if_splits dest: fetchNextSegment_coherent)
qed

lemma coherent_initial: "coherent (PipelineInterestsFixed maxPipelineSize)"
  by (simp add: coherent_def PipelineInterestsFixed_def done_segments_def slots_ok_def slots_distinct_def)

text \<open>
  C9. In every state a started pipeline reaches, under any sequence of arrivals,
  failures and cancellations, no segment number occurs twice among the deliveries, and
  no two slots that hold a fetcher are bound to the same segment number. The states
  reached are those of the runs in which every handler returns; the other runs end at an
  exception of the TLV library or at a read through an end iterator, in a handler
  entered in such a state (section \<open>The faults of a run\<close>).
\<close>

theorem delivered_once_bound_once:
  assumes "fetch_all ms maxPipelineSize es = Inr s"
  shows "distinct (map segment (delivered s))
       \<and> (\<forall>i j. i < length (m_segmentFetchers s) \<and> j < length (m_segmentFetchers s) \<and> i \<noteq> j
                \<and> fst (m_segmentFetchers s ! i) \<noteq> None \<and> fst (m_segmentFetchers s ! j) \<noteq> None
            \<longrightarrow> snd (m_segmentFetchers s ! i) \<noteq> snd (m_segmentFetchers s ! j))"
proof -
  from assms obtain s0 where
    "doRun maxPipelineSize (PipelineInterestsFixed maxPipelineSize) = Inr s0" and "run ms s0 es = Inr s"
    by (auto simp: fetch_all_def split: sum.splits)
  then have "coherent s"
    using coherent_initial by (auto simp: doRun_def dest!: doRun_loop_coherent run_coherent)
  then show ?thesis
    by (auto simp: coherent_def slots_ok_def slots_distinct_def done_segments_def)
qed

theorem delivered_once_bound_once_witness:
  "fetch_all MissIsNull 3 [Arrive 0 packet0, Arrive 1 packet1] = Inr before_last
   \<and> distinct (map segment (delivered before_last))
   \<and> map snd (m_segmentFetchers before_last) = [3, 4, 2]"
  using delivered_once_bound_once [of MissIsNull 3 "[Arrive 0 packet0, Arrive 1 packet1]" before_last]
    reach_before_last [of MissIsNull]
  by (simp add: before_last_def)

section \<open>The faults of a run\<close>

lemma get_fault: "get bs t = Inl f \<Longrightarrow> f = TlvError"
  by (induction bs) (auto split: if_splits)

lemma pending_compare_fault: "pending_compare d els cData = Inl f \<Longrightarrow> f = TlvError"
  by (auto simp: pending_compare_def split: option.splits sum.splits dest: get_fault)

lemma find_second_fault: "find_second ms m k = Inl f \<Longrightarrow> ms = MissFaults \<and> f = EndIteratorDeref"
  by (cases ms) (auto simp: find_second_def split: option.splits)

lemma resolve_pending_fault:
  "resolve_pending ms k d els s = Inl f \<Longrightarrow> expected_fault ms f"
  by (auto simp: resolve_pending_def expected_fault_def
           split: if_splits sum.splits option.splits
           dest: find_second_fault pending_compare_fault)

lemma verify_segment_fault:
  "verify_segment ms k d s = Inl f \<Longrightarrow> expected_fault ms f"
  by (auto simp: verify_segment_def expected_fault_def
           split: if_splits sum.splits option.splits dest: find_second_fault)

lemma fetchNextSegment_no_fault:
  assumes "i < length (m_segmentFetchers s)" and "\<not> slot_running (m_segmentFetchers s ! i)"
  shows "fetchNextSegment i s \<noteq> Inl f"
  using assms
  by (auto simp: fetchNextSegment_def getNextSegmentNo_def slot_running_def
           split: option.splits)

lemma slot_free_calmer:
  assumes "list_all2 calmer (m_segmentFetchers s) fs" and "slot_free i s"
  shows "slot_free i (s\<lparr>m_segmentFetchers := fs\<rparr>)"
  using assms by (auto simp: slot_free_def list_all2_conv_all_nth calmer_def)

lemma resolve_pending_slots:
  assumes "resolve_pending ms k d els s = Inr (Continues, s1)" and "\<not> m_isStopping s"
  shows "m_segmentFetchers s1 = m_segmentFetchers s \<and> \<not> m_isStopping s1"
  using resolve_pending_cases [OF assms] assms(2) by auto

lemma verify_segment_slots:
  assumes "verify_segment ms k d s = Inr (Continues, s1)" and "\<not> m_isStopping s"
  shows "m_segmentFetchers s1 = m_segmentFetchers s \<and> \<not> m_isStopping s1"
  using verify_segment_cases [OF assms] assms(2) by auto

lemma discover_final_slots:
  assumes "discover_final d s = (Continues, s1)" and "\<not> m_isStopping s" and "slot_free i s"
  shows "slot_free i s1"
proof -
  from discover_final_cases [OF assms(1,2)]
  consider "s1 = s"
    | k fs where "cancel_beyond k (m_segmentFetchers s) = (fs, None)"
        "s1 = s\<lparr>m_lastSegmentNo := k, m_hasFinalBlockId := True, m_segmentFetchers := fs\<rparr>"
    by auto
  then show ?thesis
  proof cases
    case 1
    then show ?thesis using assms(3) by simp
  next
    case 2
    from slot_free_calmer [OF cancel_beyond_calmer [OF 2(1)] assms(3)] show ?thesis
      using 2(2) by (simp add: slot_free_def)
  qed
qed

lemma finish_or_refill_no_fault:
  "slot_free i s \<Longrightarrow> finish_or_refill i s \<noteq> Inl f"
  using fetchNextSegment_no_fault [of i s f]
  by (auto simp: finish_or_refill_def slot_free_def split: sum.splits)

lemma handleData_fault:
  assumes "handleData ms (segment d) d i s = Inl f" and "slot_free i s"
  shows "expected_fault ms f"
proof -
  have n: "\<not> m_isStopping s"
    using assms(1) by (auto simp: handleData_def isStopping_def)
  show ?thesis
  proof (cases "content d")
    case None
    then show ?thesis
      using assms(1) n by (simp add: handleData_def isStopping_def expected_fault_def)
  next
    case (Some els)
    show ?thesis
    proof (cases "resolve_pending ms (toInt (segment d)) d els s")
      case (Inl e)
      then show ?thesis
        using assms(1) n Some resolve_pending_fault [of ms _ d els s e]
        by (simp add: handleData_def isStopping_def)
    next
      case (Inr r1)
      obtain fl1 s1 where r1: "r1 = (fl1, s1)" by (cases r1)
      show ?thesis
      proof (cases fl1)
        case Returns
        then show ?thesis
          using assms(1) n Some Inr r1 by (simp add: handleData_def isStopping_def)
      next
        case Continues
        from resolve_pending_slots [OF Inr [unfolded r1 Continues] n]
        have f1: "m_segmentFetchers s1 = m_segmentFetchers s" and n1: "\<not> m_isStopping s1"
          by simp_all
        have v: "(case verify_segment ms (toInt (segment d)) d s1 of
                    Inl e \<Rightarrow> Inl e
                  | Inr (Returns, s2) \<Rightarrow> Inr s2
                  | Inr (Continues, s2) \<Rightarrow>
                      (case discover_final d s2 of
                         (Returns, s3) \<Rightarrow> Inr s3
                       | (Continues, s3) \<Rightarrow> finish_or_refill i s3)) = Inl f"
          using assms(1) n Some Inr r1 Continues by (simp add: handleData_def isStopping_def)
        show ?thesis
        proof (cases "verify_segment ms (toInt (segment d)) d s1")
          case (Inl e)
          then show ?thesis using v verify_segment_fault [of ms _ d s1 e] by simp
        next
          case inr2: (Inr r2)
          obtain fl2 s2 where r2: "r2 = (fl2, s2)" by (cases r2)
          show ?thesis
          proof (cases fl2)
            case Returns
            then show ?thesis using v inr2 r2 by simp
          next
            case c2: Continues
            from verify_segment_slots [OF inr2 [unfolded r2 c2] n1]
            have f2: "m_segmentFetchers s2 = m_segmentFetchers s1" and n2: "\<not> m_isStopping s2"
              by simp_all
            have free2: "slot_free i s2"
              using assms(2) f1 f2 by (simp add: slot_free_def)
            obtain fl3 s3 where d3: "discover_final d s2 = (fl3, s3)"
              by (cases "discover_final d s2")
            show ?thesis
            proof (cases fl3)
              case Returns
              then show ?thesis using v inr2 r2 c2 d3 by simp
            next
              case c3: Continues
              from discover_final_slots [OF d3 [unfolded c3] n2 free2]
              have "finish_or_refill i s3 \<noteq> Inl f" by (rule finish_or_refill_no_fault)
              then show ?thesis using v inr2 r2 c2 d3 c3 by simp
            qed
          qed
        qed
      qed
    qed
  qed
qed

lemma handleFail_no_fault:
  "i < length (m_segmentFetchers s) \<Longrightarrow> handleFail reason i s \<noteq> Inl f"
  by (auto simp: handleFail_def split: prod.splits)

lemma step_fault:
  assumes "step ms s e = Inl f"
  shows "expected_fault ms f"
proof (cases e)
  case (Arrive i d)
  let ?r = "resolve_slot (\<lambda>f. f\<lparr>m_isStopped := True\<rparr>) i s"
  from assms Arrive have run: "running_at s i"
    and h: "handleData ms (segment d) d i ?r = Inl f"
    by (auto split: if_splits)
  have "slot_free i ?r"
    using run
    by (cases "fst (m_segmentFetchers s ! i)")
       (simp_all add: slot_free_def running_at_def resolve_slot_def slot_running_def isRunning_def)
  with h show ?thesis by (rule handleData_fault)
next
  case (Fail i reason)
  let ?r = "resolve_slot (\<lambda>f. f\<lparr>m_hasError := True\<rparr>) i s"
  from assms Fail have "running_at s i" and h: "handleFail reason i ?r = Inl f"
    by (auto split: if_splits)
  then have "i < length (m_segmentFetchers ?r)"
    by (simp add: running_at_def resolve_slot_def)
  then show ?thesis using h handleFail_no_fault by blast
next
  case Cancel
  then show ?thesis using assms by simp
qed

lemma run_fault: "run ms s es = Inl f \<Longrightarrow> expected_fault ms f"
proof (induction es arbitrary: s)
  case Nil
  then show ?case by simp
next
  case (Cons e es)
  then show ?case by (auto split: sum.splits dest: step_fault)
qed

lemma doRun_loop_no_fault:
  assumes "n + left \<le> length (m_segmentFetchers s)"
    and "\<forall>j<length (m_segmentFetchers s). n \<le> j \<longrightarrow> \<not> slot_running (m_segmentFetchers s ! j)"
  shows "doRun_loop n left s \<noteq> Inl f"
  using assms
proof (induction n left s rule: doRun_loop.induct)
  case (1 n s)
  then show ?case by simp
next
  case (2 n left s)
  have i: "n < length (m_segmentFetchers s)" and fr: "\<not> slot_running (m_segmentFetchers s ! n)"
    using "2.prems" by auto
  show ?case
  proof (cases "fetchNextSegment n s")
    case (Inl e)
    then show ?thesis using fetchNextSegment_no_fault [OF i fr, of e] by simp
  next
    case (Inr r)
    obtain ok s1 where r: "r = (ok, s1)" by (cases r)
    show ?thesis
    proof (cases ok)
      case False
      then show ?thesis using Inr r by simp
    next
      case True
      have ns: "\<not> m_isStopping s"
        using Inr r True by (auto simp: fetchNextSegment_def isStopping_def)
      from fetchNextSegment_cases [OF Inr [unfolded r] ns] True
      have fs1: "m_segmentFetchers s1
                 = (m_segmentFetchers s)[n := (Some fetch, m_nextSegmentNo s)]"
        by auto
      have "doRun_loop (Suc n) left s1 \<noteq> Inl f"
      proof (rule "2.IH" [OF Inr r [symmetric] True])
        show "Suc n + left \<le> length (m_segmentFetchers s1)"
          using "2.prems"(1) fs1 by simp
        show "\<forall>j<length (m_segmentFetchers s1). Suc n \<le> j
                \<longrightarrow> \<not> slot_running (m_segmentFetchers s1 ! j)"
          using "2.prems"(2) fs1 by auto
      qed
      then show ?thesis using Inr r True by simp
    qed
  qed
qed

lemma run_fault_prefix:
  "run ms s es = Inl f \<Longrightarrow>
   \<exists>es1 e es2 s1. es = es1 @ e # es2 \<and> run ms s es1 = Inr s1 \<and> step ms s1 e = Inl f"
proof (induction es arbitrary: s)
  case Nil
  then show ?case by simp
next
  case (Cons e es)
  show ?case
  proof (cases "step ms s e")
    case (Inl g)
    with Cons.prems have "g = f" by simp
    with Inl have "e # es = [] @ e # es \<and> run ms s [] = Inr s \<and> step ms s e = Inl f" by simp
    then show ?thesis by blast
  next
    case (Inr s1)
    with Cons.prems have "run ms s1 es = Inl f" by simp
    from Cons.IH [OF this] obtain es1 e' es2 s2 where
      "es = es1 @ e' # es2" "run ms s1 es1 = Inr s2" "step ms s2 e' = Inl f" by blast
    with Inr have "e # es = (e # es1) @ e' # es2 \<and> run ms s (e # es1) = Inr s2 \<and> step ms s2 e' = Inl f"
      by simp
    then show ?thesis by blast
  qed
qed

text \<open>
  A run of a started pipeline that does not return a state has ended with an exception
  of the TLV library or, when the unchecked lookups are read as faulting, at such a
  lookup: no index leaves the slot vector and no assertion fails. The fault is that of
  one handler, entered in a state the events before it have led to.
\<close>

theorem faults_of_a_run:
  "fetch_all ms maxPipelineSize es = Inl f \<Longrightarrow>
   expected_fault ms f
   \<and> (\<exists>es1 e es2 s1. es = es1 @ e # es2 \<and> fetch_all ms maxPipelineSize es1 = Inr s1
          \<and> step ms s1 e = Inl f)"
proof -
  assume a: "fetch_all ms maxPipelineSize es = Inl f"
  have n: "doRun maxPipelineSize (PipelineInterestsFixed maxPipelineSize) \<noteq> Inl f"
    unfolding doRun_def
    by (rule doRun_loop_no_fault)
       (simp_all add: PipelineInterestsFixed_def slot_running_def)
  then obtain s0 where s0: "doRun maxPipelineSize (PipelineInterestsFixed maxPipelineSize) = Inr s0"
    and r: "run ms s0 es = Inl f"
    using a by (auto simp: fetch_all_def split: sum.splits)
  from run_fault_prefix [OF r] obtain es1 e es2 s1 where
    p: "es = es1 @ e # es2" "run ms s0 es1 = Inr s1" "step ms s1 e = Inl f" by blast
  then have "fetch_all ms maxPipelineSize es1 = Inr s1" using s0 by (simp add: fetch_all_def)
  with p have "\<exists>es1 e es2 s1. es = es1 @ e # es2 \<and> fetch_all ms maxPipelineSize es1 = Inr s1
          \<and> step ms s1 e = Inl f" by blast
  moreover from run_fault [OF r] have "expected_fault ms f" .
  ultimately show ?thesis by simp
qed

lemma unparsed_content_throws: "fetch_all ms 2 [Arrive 0 unparsed_packet0] = Inl TlvError"
  by (cases ms) (simp_all add: model_defs packet_defs unparsed_packet0_def eval_nat_numeral)

theorem faults_of_a_run_witness:
  "fetch_all MissFaults 2 [Arrive 1 packet1] = Inl EndIteratorDeref
   \<and> expected_fault MissFaults EndIteratorDeref"
  using faults_of_a_run [of MissFaults 2 "[Arrive 1 packet1]" EndIteratorDeref]
  by (simp add: model_defs packet_defs eval_nat_numeral)

section \<open>What the failure handling does\<close>

lemma cancel_following_eq:
  "cancel_following failed fs
   = (cancel_after failed fs, list_all (\<lambda>sl. \<not> slot_running sl) (cancel_after failed fs))"
proof (induction failed fs rule: cancel_following.induct)
  case (1 failed)
  then show ?case by (simp add: cancel_after_def)
next
  case (2 failed n fs)
  then show ?case by (simp add: cancel_after_def slot_running_def)
next
  case (3 failed f n fs)
  then show ?case
    by (simp add: cancel_after_def slot_running_def fetcher_cancel_def isRunning_def)
qed

lemma cancel_after_empty:
  "list_all (\<lambda>sl. fst sl = None) fs \<Longrightarrow>
   cancel_after failed fs = fs \<and> list_all (\<lambda>sl. \<not> slot_running sl) fs"
  by (induction fs) (auto simp: cancel_after_def slot_running_def)

text \<open>
  While the final segment number is unknown, \<open>handleFail\<close> cancels every fetcher
  bound to a segment number after the failed one; if no fetcher is running then, it
  aborts the pipeline with the error that no final segment number has been found;
  otherwise it keeps the slots so cancelled and latches \<open>m_hasFailure\<close>.
\<close>

theorem handleFail_unknown_final:
  assumes "\<not> m_isStopping s" and "\<not> m_hasFinalBlockId s" and "pipeNo < length (m_segmentFetchers s)"
  shows "handleFail reason pipeNo s =
     Inr (let fs = cancel_after (snd (m_segmentFetchers s ! pipeNo)) (m_segmentFetchers s) in
          if list_all (\<lambda>sl. \<not> slot_running sl) fs
          then aborted ''Fetching terminated but no final segment number has been found'' s
          else s\<lparr>m_segmentFetchers := fs, m_hasFailure := True\<rparr>)"
proof (cases "list_all (\<lambda>sl. fst sl = None) (m_segmentFetchers s)")
  case True
  from cancel_after_empty [OF True, of "snd (m_segmentFetchers s ! pipeNo)"] show ?thesis
    using assms True by (simp add: handleFail_def isStopping_def onFailure_running)
next
  case False
  then show ?thesis
    using assms
    by (simp add: handleFail_def isStopping_def onFailure_running cancel_following_eq aborted_def)
qed

text \<open>
  When the final segment number is known and the failed segment lies within it,
  \<open>handleFail\<close> aborts the pipeline with the fetch task's own reason.
\<close>

theorem handleFail_within_final:
  "\<not> m_isStopping s \<Longrightarrow> m_hasFinalBlockId s \<Longrightarrow> pipeNo < length (m_segmentFetchers s)
   \<Longrightarrow> snd (m_segmentFetchers s ! pipeNo) \<le> m_lastSegmentNo s
   \<Longrightarrow> handleFail reason pipeNo s = Inr (aborted reason s)"
  by (simp add: handleFail_def isStopping_def onFailure_running)

lemma cancel_beyond_error:
  "(snd (cancel_beyond k fs) \<noteq> None) = list_ex (errored_within k) fs"
proof (induction k fs rule: cancel_beyond.induct)
  case (1 k)
  then show ?case by simp
next
  case (2 k n fs)
  then show ?case by (cases "cancel_beyond k fs") (simp add: errored_within_def)
next
  case (3 k f n fs)
  then show ?case by (cases "cancel_beyond k fs") (simp add: errored_within_def)
qed

text \<open>
  The loop that follows the discovery of the final segment number leaves the handler
  with a fatal error exactly when some slot within the bound holds a fetcher that has an
  error.
\<close>

theorem discovery_fatal_iff:
  assumes "\<not> m_isStopping s" and "\<not> m_hasFinalBlockId s" and "finalBlock d = Some k"
  shows "(fst (discover_final d s) = Returns) = list_ex (errored_within k) (m_segmentFetchers s)"
proof -
  obtain fs r where cb: "cancel_beyond k (m_segmentFetchers s) = (fs, r)"
    by (cases "cancel_beyond k (m_segmentFetchers s)")
  then have "(r \<noteq> None) = list_ex (errored_within k) (m_segmentFetchers s)"
    using cancel_beyond_error [of k "m_segmentFetchers s"] by simp
  then show ?thesis
    using assms cb by (cases r) (simp_all add: discover_final_def)
qed

text \<open>
  When the comparison of line 156 finds a difference, the handler returns with the
  pipeline aborted and the integrity error reported, the segment is not delivered, and
  no later event changes the pipeline: nothing is delivered any more.
\<close>

theorem detected_mismatch_fatal:
  assumes "\<not> m_isStopping s" and "k \<noteq> 0"
    and "find_second ms (hash_map s) (to_int32 (k - 1)) = Inr (Some hash_block)"
    and "direct_compare d hash_block"
  shows "verify_segment ms k d s = Inr (Returns, aborted ''Failure hash key error'' s)
       \<and> run ms (aborted ''Failure hash key error'' s) es = Inr (aborted ''Failure hash key error'' s)
       \<and> delivered (aborted ''Failure hash key error'' s) = delivered s"
proof -
  have "run ms (aborted ''Failure hash key error'' s) es = Inr (aborted ''Failure hash key error'' s)"
    by (rule run_stopped) (simp_all add: aborted_def)
  then show ?thesis
    using assms by (simp add: verify_segment_def onFailure_running aborted_def)
qed

theorem handleFail_unknown_final_witness:
  "\<not> m_isStopping failing_state \<and> \<not> m_hasFinalBlockId failing_state
   \<and> 2 < length (m_segmentFetchers failing_state)
   \<and> handleFail ''timeout'' 2 failing_state = Inr (failing_state\<lparr>m_hasFailure := True\<rparr>)"
  using handleFail_unknown_final [of failing_state 2 "''timeout''"]
  by (simp add: failing_state_def cancel_after_def slot_running_def isRunning_def)

theorem handleFail_within_final_witness:
  "\<not> m_isStopping latched_state \<and> m_hasFinalBlockId latched_state
   \<and> 1 < length (m_segmentFetchers latched_state)
   \<and> snd (m_segmentFetchers latched_state ! 1) \<le> m_lastSegmentNo latched_state
   \<and> handleFail ''nack'' 1 latched_state = Inr (aborted ''nack'' latched_state)"
  using handleFail_within_final [of latched_state 1 "''nack''"]
  by (simp add: latched_state_def)

theorem discovery_fatal_iff_witness:
  "\<not> m_isStopping failing_state \<and> \<not> m_hasFinalBlockId failing_state
   \<and> finalBlock (ending_packet0 5) = Some 5
   \<and> fst (discover_final (ending_packet0 5) failing_state) = Returns
   \<and> fst (discover_final (ending_packet0 1) failing_state) = Continues"
proof -
  have "fst (discover_final (ending_packet0 5) failing_state) = Returns"
    using discovery_fatal_iff [of failing_state "ending_packet0 5" 5]
    by (simp add: failing_state_def ending_packet0_def errored_within_def hasError_def)
  moreover have "fst (discover_final (ending_packet0 1) failing_state) \<noteq> Returns"
    using discovery_fatal_iff [of failing_state "ending_packet0 1" 1]
    by (simp add: failing_state_def ending_packet0_def errored_within_def hasError_def)
  then have "fst (discover_final (ending_packet0 1) failing_state) = Continues"
    by (cases "fst (discover_final (ending_packet0 1) failing_state)") simp_all
  ultimately show ?thesis
    by (simp add: failing_state_def ending_packet0_def)
qed

theorem detected_mismatch_fatal_witness:
  "\<not> m_isStopping before_last \<and> (2::int) \<noteq> 0
   \<and> find_second MissFaults (hash_map before_last) (to_int32 (2 - 1))
     = Inr (Some (signature_block [11]))
   \<and> direct_compare forged_packet2 (signature_block [11])
   \<and> verify_segment MissFaults 2 forged_packet2 before_last
     = Inr (Returns, aborted ''Failure hash key error'' before_last)
   \<and> run MissFaults (aborted ''Failure hash key error'' before_last) [Arrive 0 packet0]
     = Inr (aborted ''Failure hash key error'' before_last)"
  using detected_mismatch_fatal [of before_last 2 MissFaults "signature_block [11]"
      forged_packet2 "[Arrive 0 packet0]"]
  by (simp add: before_last_def forged_packet2_def find_second_def direct_compare_def
        to_int32_def memcmp_def value_at_def value_size_def signature_block_def)

end
